theory Spec2Isabelle
  imports Complex_Main "HOL-Library.Word" "HOL-Library.Multiset"
begin

section \<open>JavaScript strings\<close>

text \<open>
  A JavaScript string is a sequence of UTF-16 code units; \<open>length\<close>, \<open>substring\<close>,
  \<open>split\<close> and \<open>trim\<close> all count code units. \<open>js\<close> writes an ASCII literal.
\<close>

type_synonym jsstring = "16 word list"

definition js :: "string \<Rightarrow> jsstring" where
  "js s = map (\<lambda>c. of_nat (of_char c)) s"

text \<open>
  \<open>String.prototype.trim\<close> removes WhiteSpace and LineTerminator code points from both
  ends: TAB, LF, VT, FF, CR, SP, NBSP, U+1680, U+2000..U+200A, U+2028, U+2029, U+202F,
  U+205F, U+3000 and U+FEFF.
\<close>

definition isWhiteSpace :: "16 word \<Rightarrow> bool" where
  "isWhiteSpace c =
     (let n = unat c in
        n \<in> {9, 10, 11, 12, 13, 32, 160, 5760, 8232, 8233, 8239, 8287, 12288, 65279}
        \<or> (8192 \<le> n \<and> n \<le> 8202))"

definition trim :: "jsstring \<Rightarrow> jsstring" where
  "trim s = rev (dropWhile isWhiteSpace (rev (dropWhile isWhiteSpace s)))"

text \<open>
  \<open>s.split(/[...]+/)\<close>: the separators are the maximal runs of characters of the class.
  A run at the start or at the end of the string leaves an empty piece there, and the
  empty string splits into one empty piece.
\<close>

function split_runs :: "('a \<Rightarrow> bool) \<Rightarrow> 'a list \<Rightarrow> 'a list list" where
  "split_runs sep [] = [[]]"
| "split_runs sep (c # cs) =
     (if sep c then [] # split_runs sep (dropWhile sep cs)
      else (case split_runs sep cs of
              [] \<Rightarrow> [[c]]
            | p # ps \<Rightarrow> (c # p) # ps))"
  by pat_completeness auto
termination
  by (relation "measure (\<lambda>(sep, cs). length cs)")
     (auto simp: le_imp_less_Suc length_dropWhile_le)

text \<open>\<open>s.split(" ")\<close>: every single occurrence of the separator character splits.\<close>

fun splitOn :: "'a \<Rightarrow> 'a list \<Rightarrow> 'a list list" where
  "splitOn sep [] = [[]]"
| "splitOn sep (c # cs) =
     (if c = sep then [] # splitOn sep cs
      else (case splitOn sep cs of
              [] \<Rightarrow> [[c]]
            | p # ps \<Rightarrow> (c # p) # ps))"

text \<open>\<open>xs.join(sep)\<close> and \<open>xs.slice(a, b)\<close> for indices \<open>0 \<le> a\<close>, \<open>0 \<le> b\<close>.\<close>

fun join :: "'a list \<Rightarrow> 'a list list \<Rightarrow> 'a list" where
  "join sep [] = []"
| "join sep [x] = x"
| "join sep (x # y # ys) = x @ sep @ join sep (y # ys)"

definition slice :: "nat \<Rightarrow> nat \<Rightarrow> 'a list \<Rightarrow> 'a list" where
  "slice a b xs = take (b - a) (drop a xs)"

text \<open>The decimal rendering of a non-negative integer in a template literal.\<close>

function natToString :: "nat \<Rightarrow> jsstring" where
  "natToString n =
     (if n < 10 then [of_nat (48 + n)]
      else natToString (n div 10) @ [of_nat (48 + n mod 10)])"
  by pat_completeness auto
termination
  by (relation "measure (\<lambda>n. n)") auto

declare natToString.simps [simp del]

definition isLineFeed :: "16 word \<Rightarrow> bool" where
  "isLineFeed c = (c = 0x0A)"

definition isSentenceEnd :: "16 word \<Rightarrow> bool" where
  "isSentenceEnd c = (c = 0x2E \<or> c = 0x21 \<or> c = 0x3F)"

section \<open>The enumerations of \<open>lib/types.ts\<close>\<close>

datatype ShotType =
  ECU | CU | MCU | MS | MLS | LS | ELS | OTS | POV | AERIAL | DUTCH | TWO_SHOT

datatype CameraAngle =
  EYE_LEVEL | LOW_ANGLE | HIGH_ANGLE | BIRD_EYE | WORM_EYE | DUTCH_ANGLE

datatype CameraMovement =
  STATIC | PAN | TILT | DOLLY_IN | DOLLY_OUT | TRACKING | ZOOM_IN | ZOOM_OUT | CRANE | HANDHELD

datatype SceneMood =
  HAPPY | SAD | TENSE | MYSTERIOUS | ROMANTIC | SCARY | SERENE | CHAOTIC

datatype VisualStyle =
  Cinematic | Anime | Comic | Minimal | Concept | Realistic3d | Watercolor | Noir

datatype AspectRatio = R16_9 | R4_3 | R2_35_1 | R1_1 | R9_16

datatype Quality = Standard | High | Draft

section \<open>Heuristic story segmentation (\<open>lib/storyboard-generator.ts\<close>)\<close>

text \<open>
  \<open>Math.random()\<close> is modelled by the sequence \<open>rnd\<close> of the values that successive
  calls return, and a position in it; each call yields a number in \<open>[0, 1)\<close>.
  \<open>Math.floor(Math.random() * n)\<close> is \<open>randomIndex r n\<close>, and indexing a literal array
  with it is \<open>pick\<close>, which is \<open>None\<close> (JavaScript \<open>undefined\<close>) out of range.
\<close>

definition validRandom :: "(nat \<Rightarrow> real) \<Rightarrow> bool" where
  "validRandom rnd = (\<forall>n. 0 \<le> rnd n \<and> rnd n < 1)"

definition zeroRandom :: "nat \<Rightarrow> real" where
  "zeroRandom n = 0"

definition randomIndex :: "real \<Rightarrow> nat \<Rightarrow> nat" where
  "randomIndex r n = nat \<lfloor>r * real n\<rfloor>"

definition pick :: "'a list \<Rightarrow> real \<Rightarrow> 'a option" where
  "pick xs r = (let k = randomIndex r (length xs) in if k < length xs then Some (xs ! k) else None)"

text \<open>
  The shot and scene objects that \<open>analyzeStoryBasic\<close> builds. Of the shot's fields,
  \<open>characters\<close>, \<open>timeOfDay\<close>, \<open>lighting\<close> and \<open>notes\<close> are left out: they are
  computed from the paragraph by a regular expression with word boundaries and by
  \<open>toLowerCase().includes(...)\<close>, they draw no random number, and nothing below reads them.
\<close>

record AnalysisShot =
  as_shotType :: "ShotType option"
  as_description :: jsstring
  as_cameraAngle :: "CameraAngle option"
  as_cameraMovement :: "CameraMovement option"
  as_location :: jsstring
  as_mood :: "SceneMood option"
  as_audio :: jsstring

record AnalysisScene =
  an_title :: jsstring
  an_description :: jsstring
  an_shots :: "AnalysisShot list"

record StoryStructure =
  st_title :: jsstring
  st_scenes :: "AnalysisScene list"

definition generateTitle :: "jsstring \<Rightarrow> jsstring" where
  "generateTitle storyText =
     (let words = splitOn 0x20 storyText;
          titleWords = slice 0 (min 5 (length words)) words
      in join (js '' '') titleWords
         @ (if length titleWords < length words then js ''...'' else []))"

definition paragraphs :: "jsstring \<Rightarrow> jsstring list" where
  "paragraphs storyText =
     filter (\<lambda>p. length (trim p) > 0) (split_runs isLineFeed storyText)"

definition sentenceCount :: "jsstring \<Rightarrow> nat" where
  "sentenceCount paragraph = length (split_runs isSentenceEnd paragraph)"

definition startSentence :: "jsstring \<Rightarrow> nat \<Rightarrow> nat \<Rightarrow> nat" where
  "startSentence paragraph shotCount i =
     nat \<lfloor>(real (sentenceCount paragraph) / real shotCount) * real i\<rfloor>"

definition endSentence :: "jsstring \<Rightarrow> nat \<Rightarrow> nat \<Rightarrow> nat" where
  "endSentence paragraph shotCount i =
     min (startSentence paragraph shotCount i
            + nat \<lceil>real (sentenceCount paragraph) / real shotCount\<rceil>)
         (sentenceCount paragraph)"

definition sentences :: "jsstring \<Rightarrow> jsstring list" where
  "sentences paragraph =
     filter (\<lambda>s. length (trim s) > 0) (split_runs isSentenceEnd paragraph)"

definition shotSentences :: "jsstring \<Rightarrow> nat \<Rightarrow> nat \<Rightarrow> jsstring list" where
  "shotSentences paragraph shotCount i =
     slice (startSentence paragraph shotCount i) (endSentence paragraph shotCount i)
       (sentences paragraph)"

definition shotDescription :: "jsstring \<Rightarrow> nat \<Rightarrow> nat \<Rightarrow> jsstring" where
  "shotDescription paragraph shotCount i =
     join (js ''. '') (shotSentences paragraph shotCount i) @ js ''.''"

definition audioFor :: "SceneMood option \<Rightarrow> jsstring" where
  "audioFor mood =
     (if mood = Some TENSE \<or> mood = Some SCARY then js ''Tense music, subtle heartbeat sound''
      else if mood = Some HAPPY then js ''Upbeat music, cheerful ambient sounds''
      else if mood = Some SAD then js ''Melancholic music, soft ambient sounds''
      else if mood = Some MYSTERIOUS then js ''Mysterious ambient sounds, subtle tones''
      else js ''Ambient sounds'')"

text \<open>
  One iteration of the shot loop. It calls \<open>Math.random()\<close> four times, in this order:
  shot type, camera angle, camera movement, mood.
\<close>

definition makeShot :: "(nat \<Rightarrow> real) \<Rightarrow> nat \<Rightarrow> jsstring \<Rightarrow> nat \<Rightarrow> nat \<Rightarrow> AnalysisShot" where
  "makeShot rnd pos paragraph shotCount i =
     (let shotType =
            (if i = 0 then pick [ELS, LS, AERIAL] (rnd pos)
             else if i = shotCount - 1 then pick [CU, MCU, MS] (rnd pos)
             else pick [MS, MLS, LS, MCU, OTS] (rnd pos));
          cameraAngle = pick [EYE_LEVEL, LOW_ANGLE, HIGH_ANGLE, BIRD_EYE] (rnd (pos + 1));
          cameraMovement = pick [STATIC, PAN, DOLLY_IN, ZOOM_IN, TRACKING] (rnd (pos + 2));
          mood = pick [HAPPY, SAD, TENSE, MYSTERIOUS, ROMANTIC, SCARY] (rnd (pos + 3))
      in \<lparr> as_shotType = shotType,
           as_description = shotDescription paragraph shotCount i,
           as_cameraAngle = cameraAngle,
           as_cameraMovement = cameraMovement,
           as_location = js ''Story location'',
           as_mood = mood,
           as_audio = audioFor mood \<rparr>)"

text \<open>\<open>for (let i = 0; i < shotCount; i++) { ...; shots.push(...) }\<close>\<close>

function shotsLoop ::
  "(nat \<Rightarrow> real) \<Rightarrow> nat \<Rightarrow> jsstring \<Rightarrow> nat \<Rightarrow> nat \<Rightarrow> AnalysisShot list
     \<Rightarrow> AnalysisShot list \<times> nat" where
  "shotsLoop rnd pos paragraph shotCount i shots =
     (if i < shotCount
      then shotsLoop rnd (pos + 4) paragraph shotCount (i + 1)
             (shots @ [makeShot rnd pos paragraph shotCount i])
      else (shots, pos))"
  by pat_completeness auto
termination
  by (relation "measure (\<lambda>(rnd, pos, paragraph, shotCount, i, shots). shotCount - i)") auto

declare shotsLoop.simps [simp del]

text \<open>
  The callback of \<open>paragraphs.map\<close>: the scene of one paragraph, and the position in the
  random sequence after it.
\<close>

definition makeScene :: "(nat \<Rightarrow> real) \<Rightarrow> nat \<Rightarrow> nat \<Rightarrow> jsstring \<Rightarrow> AnalysisScene \<times> nat" where
  "makeScene rnd pos index paragraph =
     (let sceneTitle =
            js ''Scene '' @ natToString (index + 1) @ js '': ''
            @ join (js '' '') (slice 0 3 (splitOn 0x20 paragraph)) @ js ''...'';
          shotCount = randomIndex (rnd pos) 3 + 2;
          (shots, pos') = shotsLoop rnd (pos + 1) paragraph shotCount 0 []
      in (\<lparr> an_title = sceneTitle, an_description = paragraph, an_shots = shots \<rparr>, pos'))"

fun scenesLoop :: "(nat \<Rightarrow> real) \<Rightarrow> nat \<Rightarrow> nat \<Rightarrow> jsstring list \<Rightarrow> AnalysisScene list \<times> nat" where
  "scenesLoop rnd pos index [] = ([], pos)"
| "scenesLoop rnd pos index (paragraph # rest) =
     (let (scene, pos') = makeScene rnd pos index paragraph;
          (scenes, pos'') = scenesLoop rnd pos' (index + 1) rest
      in (scene # scenes, pos''))"

definition analyzeStoryBasic :: "(nat \<Rightarrow> real) \<Rightarrow> jsstring \<Rightarrow> StoryStructure" where
  "analyzeStoryBasic rnd storyText =
     \<lparr> st_title = generateTitle storyText,
       st_scenes = fst (scenesLoop rnd 0 0 (paragraphs storyText)) \<rparr>"


text \<open>
  The story of two paragraphs \<open>Alice ran. She fell.\<close> and \<open>Bob laughed.\<close>, separated by
  a blank line.
\<close>

definition exampleStory :: jsstring where
  "exampleStory = js ''Alice ran. She fell.'' @ [0x0A, 0x0A] @ js ''Bob laughed.''"

section \<open>The storyboard document (\<open>lib/types.ts\<close>)\<close>

text \<open>
  An optional property \<open>p?: T\<close> has type \<open>T option\<close>, \<open>None\<close> being \<open>undefined\<close>. Of
  \<open>ShotInfo\<close> the properties \<open>characters\<close>, \<open>location\<close>, \<open>timeOfDay\<close>, \<open>weather\<close>,
  \<open>keyProps\<close>, \<open>mood\<close>, \<open>audio\<close>, \<open>notes\<close>, \<open>specialNotes\<close>, \<open>dialogueSnippet\<close>,
  \<open>order\<close>, \<open>printPosition\<close> and \<open>printScale\<close> are left out, and of \<open>SceneInfo\<close> the
  property \<open>order\<close>: the operations below only copy them. \<open>Annotation\<close> and
  \<open>TemplateStyle\<close> keep the properties that identify them.
\<close>

record ShotInfo =
  shot_id :: jsstring
  shot_sceneId :: jsstring
  shot_sceneContext :: jsstring
  shot_shotDescription :: jsstring
  shot_shotType :: ShotType
  shot_cameraAngle :: CameraAngle
  shot_cameraMovement :: CameraMovement
  shot_lighting :: "jsstring option"
  shot_prompt :: "jsstring option"
  shot_imageUrl :: "jsstring option"

record SceneInfo =
  scene_id :: jsstring
  scene_title :: jsstring
  scene_description :: jsstring
  scene_shots :: "ShotInfo list"
  scene_printPageBreakBefore :: "bool option"

record Annotation =
  ann_id :: jsstring
  ann_shotId :: "jsstring option"
  ann_sceneId :: "jsstring option"
  ann_content :: jsstring

record TemplateStyle =
  ts_id :: jsstring
  ts_name :: jsstring

record StoryboardData =
  sb_id :: jsstring
  sb_title :: jsstring
  sb_author :: "jsstring option"
  sb_director :: "jsstring option"
  sb_date :: jsstring
  sb_version :: jsstring
  sb_style :: VisualStyle
  sb_aspectRatio :: AspectRatio
  sb_scenes :: "SceneInfo list"
  sb_templateStyle :: "TemplateStyle option"
  sb_annotations :: "Annotation list option"

record StyleSettings =
  ss_visualStyle :: VisualStyle
  ss_aspectRatio :: AspectRatio
  ss_quality :: Quality
  ss_styleModifiers :: "jsstring list option"
  ss_artistReference :: "jsstring option"
  ss_colorPalette :: "jsstring option"
  ss_characterDescriptions :: "(jsstring \<times> jsstring) list option"

record StoryboardVersion =
  ver_id :: jsstring
  ver_name :: jsstring
  ver_description :: "jsstring option"
  ver_timestamp :: jsstring
  ver_storyboardData :: StoryboardData
  ver_storyInput :: jsstring
  ver_styleSettings :: StyleSettings

text \<open>
  \<open>Partial<ShotInfo>\<close> and \<open>Partial<SceneInfo>\<close>: every property may be absent (\<open>None\<close>).
  An optional property can also be present with the value \<open>undefined\<close>, as in
  \<open>updateShot(..., { imageUrl: undefined })\<close>: that is \<open>Some None\<close>.
\<close>

record PartialShotInfo =
  p_id :: "jsstring option"
  p_sceneId :: "jsstring option"
  p_sceneContext :: "jsstring option"
  p_shotDescription :: "jsstring option"
  p_shotType :: "ShotType option"
  p_cameraAngle :: "CameraAngle option"
  p_cameraMovement :: "CameraMovement option"
  p_lighting :: "jsstring option option"
  p_prompt :: "jsstring option option"
  p_imageUrl :: "jsstring option option"

record PartialSceneInfo =
  ps_id :: "jsstring option"
  ps_title :: "jsstring option"
  ps_description :: "jsstring option"
  ps_shots :: "ShotInfo list option"
  ps_printPageBreakBefore :: "bool option option"

definition override :: "'a \<Rightarrow> 'a option \<Rightarrow> 'a" where
  "override v u = (case u of None \<Rightarrow> v | Some w \<Rightarrow> w)"

text \<open>The object spread \<open>{ ...shot, ...updates }\<close>.\<close>

definition spreadShot :: "ShotInfo \<Rightarrow> PartialShotInfo \<Rightarrow> ShotInfo" where
  "spreadShot shot updates =
     \<lparr> shot_id = override (shot_id shot) (p_id updates),
       shot_sceneId = override (shot_sceneId shot) (p_sceneId updates),
       shot_sceneContext = override (shot_sceneContext shot) (p_sceneContext updates),
       shot_shotDescription = override (shot_shotDescription shot) (p_shotDescription updates),
       shot_shotType = override (shot_shotType shot) (p_shotType updates),
       shot_cameraAngle = override (shot_cameraAngle shot) (p_cameraAngle updates),
       shot_cameraMovement = override (shot_cameraMovement shot) (p_cameraMovement updates),
       shot_lighting = override (shot_lighting shot) (p_lighting updates),
       shot_prompt = override (shot_prompt shot) (p_prompt updates),
       shot_imageUrl = override (shot_imageUrl shot) (p_imageUrl updates) \<rparr>"

text \<open>\<open>x || d\<close> on an optional string: \<open>undefined\<close> and the empty string are falsy.\<close>

definition orElse :: "jsstring option \<Rightarrow> jsstring \<Rightarrow> jsstring" where
  "orElse x d = (case x of None \<Rightarrow> d | Some v \<Rightarrow> if v = [] then d else v)"

section \<open>The storyboard provider (\<open>context/storyboard-context.tsx\<close>)\<close>

text \<open>
  The state of the provider, one field per \<open>useState\<close>. The generation progress, the
  export options and the Gemini switch are left out: no operation below reads or writes
  them. Every operation is a function from the state at the call to the state after it.
  An operation that can throw returns \<open>error + state\<close>; the state is then the one before
  the call, since the \<open>throw\<close> comes before any setter.
\<close>

record ProviderState =
  storyInput :: jsstring
  storyboardData :: "StoryboardData option"
  styleSettings :: StyleSettings
  characters :: "jsstring list"
  characterDescriptions :: "(jsstring \<times> jsstring) list"
  versionHistory :: "StoryboardVersion list"
  currentVersionIndex :: nat
  savedTemplateStyles :: "TemplateStyle list"
  projectSaved :: bool

datatype error =
  ShotNotFound jsstring
| SceneNotFound jsstring
| TypeError
| URIError

definition setStoryboardData :: "StoryboardData option \<Rightarrow> ProviderState \<Rightarrow> ProviderState" where
  "setStoryboardData data st =
     st\<lparr> storyboardData :=
           (case data of
              None \<Rightarrow> None
            | Some d \<Rightarrow>
                Some (if sb_annotations d = None then d\<lparr> sb_annotations := Some [] \<rparr> else d)) \<rparr>"

definition setProjectSaved :: "bool \<Rightarrow> ProviderState \<Rightarrow> ProviderState" where
  "setProjectSaved b st = st\<lparr> projectSaved := b \<rparr>"

definition updateShot :: "jsstring \<Rightarrow> jsstring \<Rightarrow> PartialShotInfo \<Rightarrow> ProviderState \<Rightarrow> ProviderState" where
  "updateShot sceneId shotId updates st =
     (case storyboardData st of
        None \<Rightarrow> st
      | Some sb \<Rightarrow>
          setProjectSaved False
            (setStoryboardData
               (Some (sb\<lparr> sb_scenes :=
                   map (\<lambda>scene.
                          if scene_id scene = sceneId
                          then scene\<lparr> scene_shots :=
                                  map (\<lambda>shot. if shot_id shot = shotId
                                               then spreadShot shot updates else shot)
                                      (scene_shots scene) \<rparr>
                          else scene)
                       (sb_scenes sb) \<rparr>))
               st))"

text \<open>\<open>uuid\<close> is the identifier that \<open>uuidv4()\<close> returns when it is called.\<close>

definition addShot :: "jsstring \<Rightarrow> jsstring \<Rightarrow> PartialShotInfo \<Rightarrow> ProviderState \<Rightarrow> ProviderState" where
  "addShot uuid sceneId shot st =
     (case storyboardData st of
        None \<Rightarrow> st
      | Some sb \<Rightarrow>
          (let newShot =
                 spreadShot
                   \<lparr> shot_id = orElse (p_id shot) uuid,
                     shot_sceneId = sceneId,
                     shot_sceneContext = [],
                     shot_shotDescription = orElse (p_shotDescription shot) (js ''New shot''),
                     shot_shotType = override MS (p_shotType shot),
                     shot_cameraAngle = override EYE_LEVEL (p_cameraAngle shot),
                     shot_cameraMovement = override STATIC (p_cameraMovement shot),
                     shot_lighting =
                       Some (orElse (override None (p_lighting shot)) (js ''Natural lighting'')),
                     shot_prompt = None,
                     shot_imageUrl = None \<rparr>
                   shot
           in setProjectSaved False
                (setStoryboardData
                   (Some (sb\<lparr> sb_scenes :=
                       map (\<lambda>scene.
                              if scene_id scene = sceneId
                              then scene\<lparr> scene_shots := scene_shots scene @ [newShot] \<rparr>
                              else scene)
                           (sb_scenes sb) \<rparr>))
                   st)))"

definition removeShot :: "jsstring \<Rightarrow> jsstring \<Rightarrow> ProviderState \<Rightarrow> ProviderState" where
  "removeShot sceneId shotId st =
     (case storyboardData st of
        None \<Rightarrow> st
      | Some sb \<Rightarrow>
          setProjectSaved False
            (setStoryboardData
               (Some (sb\<lparr> sb_scenes :=
                   map (\<lambda>scene.
                          if scene_id scene = sceneId
                          then scene\<lparr> scene_shots :=
                                  filter (\<lambda>shot. shot_id shot \<noteq> shotId) (scene_shots scene) \<rparr>
                          else scene)
                       (sb_scenes sb) \<rparr>))
               st))"

definition addScene :: "jsstring \<Rightarrow> PartialSceneInfo \<Rightarrow> ProviderState \<Rightarrow> ProviderState" where
  "addScene uuid scene st =
     (case storyboardData st of
        None \<Rightarrow> st
      | Some sb \<Rightarrow>
          (let newScene =
                 \<lparr> scene_id = orElse (ps_id scene) uuid,
                   scene_title = orElse (ps_title scene) (js ''New Scene''),
                   scene_description = orElse (ps_description scene) [],
                   scene_shots = override [] (ps_shots scene),
                   scene_printPageBreakBefore = None \<rparr>
           in setProjectSaved False
                (setStoryboardData (Some (sb\<lparr> sb_scenes := sb_scenes sb @ [newScene] \<rparr>)) st)))"

definition removeScene :: "jsstring \<Rightarrow> ProviderState \<Rightarrow> ProviderState" where
  "removeScene sceneId st =
     (case storyboardData st of
        None \<Rightarrow> st
      | Some sb \<Rightarrow>
          setProjectSaved False
            (setStoryboardData
               (Some (sb\<lparr> sb_scenes :=
                   filter (\<lambda>scene. scene_id scene \<noteq> sceneId) (sb_scenes sb) \<rparr>))
               st))"

text \<open>
  \<open>new Map(entries)\<close> keeps, for a key that occurs twice, the last entry. The callback
  of \<open>ids.map\<close> throws at the first identifier that the map does not hold.
\<close>

definition shotMap :: "ShotInfo list \<Rightarrow> jsstring \<Rightarrow> ShotInfo option" where
  "shotMap shots = map_of (rev (map (\<lambda>shot. (shot_id shot, shot)) shots))"

definition sceneMap :: "SceneInfo list \<Rightarrow> jsstring \<Rightarrow> SceneInfo option" where
  "sceneMap scenes = map_of (rev (map (\<lambda>scene. (scene_id scene, scene)) scenes))"

fun mapThrow :: "(jsstring \<Rightarrow> 'a option) \<Rightarrow> (jsstring \<Rightarrow> error) \<Rightarrow> jsstring list \<Rightarrow> error + 'a list" where
  "mapThrow m err [] = Inr []"
| "mapThrow m err (i # ids) =
     (case m i of
        None \<Rightarrow> Inl (err i)
      | Some x \<Rightarrow> (case mapThrow m err ids of Inl e \<Rightarrow> Inl e | Inr xs \<Rightarrow> Inr (x # xs)))"

definition reorderShots :: "jsstring \<Rightarrow> jsstring list \<Rightarrow> ProviderState \<Rightarrow> error + ProviderState" where
  "reorderShots sceneId shotIds st =
     (case storyboardData st of
        None \<Rightarrow> Inr st
      | Some sb \<Rightarrow>
          (case find (\<lambda>s. scene_id s = sceneId) (sb_scenes sb) of
             None \<Rightarrow> Inr st
           | Some scene \<Rightarrow>
               (case mapThrow (shotMap (scene_shots scene)) ShotNotFound shotIds of
                  Inl e \<Rightarrow> Inl e
                | Inr reorderedShots \<Rightarrow>
                    Inr (setProjectSaved False
                          (setStoryboardData
                             (Some (sb\<lparr> sb_scenes :=
                                 map (\<lambda>scene.
                                        if scene_id scene = sceneId
                                        then scene\<lparr> scene_shots := reorderedShots \<rparr>
                                        else scene)
                                     (sb_scenes sb) \<rparr>))
                             st)))))"

definition reorderScenes :: "jsstring list \<Rightarrow> ProviderState \<Rightarrow> error + ProviderState" where
  "reorderScenes sceneIds st =
     (case storyboardData st of
        None \<Rightarrow> Inr st
      | Some sb \<Rightarrow>
          (case mapThrow (sceneMap (sb_scenes sb)) SceneNotFound sceneIds of
             Inl e \<Rightarrow> Inl e
           | Inr reorderedScenes \<Rightarrow>
               Inr (setProjectSaved False
                     (setStoryboardData (Some (sb\<lparr> sb_scenes := reorderedScenes \<rparr>)) st))))"

definition duplicateShot :: "jsstring \<Rightarrow> jsstring \<Rightarrow> jsstring \<Rightarrow> ProviderState \<Rightarrow> ProviderState" where
  "duplicateShot uuid sceneId shotId st =
     (case storyboardData st of
        None \<Rightarrow> st
      | Some sb \<Rightarrow>
          (case find (\<lambda>s. scene_id s = sceneId) (sb_scenes sb) of
             None \<Rightarrow> st
           | Some scene \<Rightarrow>
               (case find (\<lambda>s. shot_id s = shotId) (scene_shots scene) of
                  None \<Rightarrow> st
                | Some shotToDuplicate \<Rightarrow>
                    (let newShot =
                           shotToDuplicate
                             \<lparr> shot_id := uuid,
                               shot_shotDescription :=
                                 shot_shotDescription shotToDuplicate @ js '' (Copy)'' \<rparr>
                     in setProjectSaved False
                          (setStoryboardData
                             (Some (sb\<lparr> sb_scenes :=
                                 map (\<lambda>scene.
                                        if scene_id scene = sceneId
                                        then scene\<lparr> scene_shots := scene_shots scene @ [newShot] \<rparr>
                                        else scene)
                                     (sb_scenes sb) \<rparr>))
                             st)))))"

text \<open>
  \<open>duplicateScene\<close> calls \<open>uuidv4()\<close> once for the scene and then once per shot:
  \<open>uuids k\<close> is what the \<open>k\<close>-th of these calls returns.
\<close>

definition duplicateScene :: "(nat \<Rightarrow> jsstring) \<Rightarrow> jsstring \<Rightarrow> ProviderState \<Rightarrow> ProviderState" where
  "duplicateScene uuids sceneId st =
     (case storyboardData st of
        None \<Rightarrow> st
      | Some sb \<Rightarrow>
          (case find (\<lambda>s. scene_id s = sceneId) (sb_scenes sb) of
             None \<Rightarrow> st
           | Some sceneToDuplicate \<Rightarrow>
               (let newSceneId = uuids 0;
                    duplicatedShots =
                      map (\<lambda>(k, shot). shot\<lparr> shot_id := uuids (Suc k), shot_sceneId := newSceneId \<rparr>)
                          (enumerate 0 (scene_shots sceneToDuplicate));
                    newScene =
                      sceneToDuplicate
                        \<lparr> scene_id := newSceneId,
                          scene_title := scene_title sceneToDuplicate @ js '' (Copy)'',
                          scene_shots := duplicatedShots \<rparr>
                in setProjectSaved False
                     (setStoryboardData (Some (sb\<lparr> sb_scenes := sb_scenes sb @ [newScene] \<rparr>)) st))))"

text \<open>\<open>xs.splice(start, 0, x)\<close> on a copy: a negative start counts from the end.\<close>

definition spliceInsert :: "int \<Rightarrow> 'a \<Rightarrow> 'a list \<Rightarrow> 'a list" where
  "spliceInsert start x xs =
     (let len = int (length xs);
          k = nat (if start < 0 then max (len + start) 0 else min start len)
      in take k xs @ [x] @ drop k xs)"

definition moveShot ::
  "jsstring \<Rightarrow> jsstring \<Rightarrow> jsstring \<Rightarrow> int option \<Rightarrow> ProviderState \<Rightarrow> ProviderState" where
  "moveShot sourceSceneId shotId targetSceneId targetIndex st =
     (case storyboardData st of
        None \<Rightarrow> st
      | Some sb \<Rightarrow>
          (case (find (\<lambda>s. scene_id s = sourceSceneId) (sb_scenes sb),
                 find (\<lambda>s. scene_id s = targetSceneId) (sb_scenes sb)) of
             (Some sourceScene, Some targetScene) \<Rightarrow>
               (case find (\<lambda>s. shot_id s = shotId) (scene_shots sourceScene) of
                  None \<Rightarrow> st
                | Some shotToMove \<Rightarrow>
                    (let updatedShot =
                           shotToMove
                             \<lparr> shot_sceneId := targetSceneId,
                               shot_sceneContext := scene_description targetScene \<rparr>;
                         updatedSourceScene =
                           sourceScene
                             \<lparr> scene_shots :=
                                 filter (\<lambda>s. shot_id s \<noteq> shotId) (scene_shots sourceScene) \<rparr>;
                         updatedTargetShots =
                           (case targetIndex of
                              Some k \<Rightarrow> spliceInsert k updatedShot (scene_shots targetScene)
                            | None \<Rightarrow> scene_shots targetScene @ [updatedShot]);
                         updatedTargetScene = targetScene\<lparr> scene_shots := updatedTargetShots \<rparr>
                     in setProjectSaved False
                          (setStoryboardData
                             (Some (sb\<lparr> sb_scenes :=
                                 map (\<lambda>scene.
                                        if scene_id scene = sourceSceneId then updatedSourceScene
                                        else if scene_id scene = targetSceneId then updatedTargetScene
                                        else scene)
                                     (sb_scenes sb) \<rparr>))
                             st)))
           | _ \<Rightarrow> st))"

subsection \<open>Saving and loading a project\<close>

text \<open>
  The object that \<open>saveProject\<close> hands to \<open>JSON.stringify\<close>, and that \<open>loadProject\<close>
  destructures from \<open>JSON.parse\<close>. In a parsed object the storyboard and the three
  properties that have a default in the destructuring pattern may be missing.
  \<open>JSON.stringify\<close> and \<open>JSON.parse\<close> belong to the platform: they are the parameters
  \<open>stringify\<close> and \<open>parse\<close> (\<open>None\<close> when \<open>JSON.parse\<close> throws), and \<open>'e\<close> is the type of
  what \<open>localStorage\<close> holds.
\<close>

record ProjectBlob =
  pb_storyboardData :: "StoryboardData option"
  pb_storyInput :: jsstring
  pb_styleSettings :: StyleSettings
  pb_characters :: "jsstring list"
  pb_characterDescriptions :: "(jsstring \<times> jsstring) list"
  pb_versionHistory :: "StoryboardVersion list option"
  pb_currentVersionIndex :: "nat option"
  pb_savedTemplateStyles :: "TemplateStyle list option"

definition storageKey :: "jsstring \<Rightarrow> jsstring" where
  "storageKey ident = js ''storyboard-'' @ ident"

definition saveProject ::
  "(ProjectBlob \<Rightarrow> 'e) \<Rightarrow> ProviderState \<Rightarrow> (jsstring \<Rightarrow> 'e option)
     \<Rightarrow> ProviderState \<times> (jsstring \<Rightarrow> 'e option)" where
  "saveProject stringify st localStorage =
     (case storyboardData st of
        None \<Rightarrow> (st, localStorage)
      | Some sb \<Rightarrow>
          (setProjectSaved True st,
           localStorage
             (storageKey (sb_id sb) \<mapsto>
                stringify
                  \<lparr> pb_storyboardData = Some sb,
                    pb_storyInput = storyInput st,
                    pb_styleSettings = styleSettings st,
                    pb_characters = characters st,
                    pb_characterDescriptions = characterDescriptions st,
                    pb_versionHistory = Some (versionHistory st),
                    pb_currentVersionIndex = Some (currentVersionIndex st),
                    pb_savedTemplateStyles = Some (savedTemplateStyles st) \<rparr>)))"

definition loadProject ::
  "('e \<Rightarrow> ProjectBlob option) \<Rightarrow> jsstring \<Rightarrow> ProviderState \<Rightarrow> (jsstring \<Rightarrow> 'e option)
     \<Rightarrow> ProviderState" where
  "loadProject parse ident st localStorage =
     (case localStorage (storageKey ident) of
        None \<Rightarrow> st
      | Some savedProject \<Rightarrow>
          (case parse savedProject of
             None \<Rightarrow> st
           | Some blob \<Rightarrow>
               (let data =
                      (case pb_storyboardData blob of
                         None \<Rightarrow> None
                       | Some d \<Rightarrow>
                           Some (if sb_annotations d = None
                                 then d\<lparr> sb_annotations := Some [] \<rparr> else d))
                in setProjectSaved True
                     ((setStoryboardData data st)
                        \<lparr> storyInput := pb_storyInput blob,
                          styleSettings := pb_styleSettings blob,
                          characters := pb_characters blob,
                          characterDescriptions := pb_characterDescriptions blob,
                          versionHistory := override [] (pb_versionHistory blob),
                          currentVersionIndex := override 0 (pb_currentVersionIndex blob),
                          savedTemplateStyles := override [] (pb_savedTemplateStyles blob) \<rparr>))))"

text \<open>The invariant of the document model: a shot's \<open>sceneId\<close> names the scene that holds it.\<close>

definition sceneIdInvariant :: "StoryboardData \<Rightarrow> bool" where
  "sceneIdInvariant sb =
     list_all (\<lambda>scene. list_all (\<lambda>shot. shot_sceneId shot = scene_id scene) (scene_shots scene))
       (sb_scenes sb)"

definition stateInvariant :: "ProviderState \<Rightarrow> bool" where
  "stateInvariant st = (case storyboardData st of None \<Rightarrow> True | Some sb \<Rightarrow> sceneIdInvariant sb)"

section \<open>The storyboard viewer: deleting shots and scenes\<close>

text \<open>
  The repository holds two \<open>StoryboardViewer\<close> components. Both keep the index of the
  current shot and, while the confirmation dialog is open, what is about to be deleted;
  both render nothing but a notice while there is no storyboard, so their handlers run on
  a storyboard. Reading a property of \<open>scenes[i]\<close> or \<open>shots[i]\<close> for an index out of
  range throws a \<open>TypeError\<close>.
\<close>

datatype DeleteType = DeleteShot | DeleteScene

record ViewerState =
  currentShot_sceneIndex :: nat
  currentShot_shotIndex :: nat
  activeScene :: nat
  confirmDelete :: "(DeleteType \<times> jsstring) option"

definition nth_opt :: "'a list \<Rightarrow> nat \<Rightarrow> 'a option" where
  "nth_opt xs i = (if i < length xs then Some (xs ! i) else None)"

definition truthy :: "jsstring option \<Rightarrow> bool" where
  "truthy s = (case s of None \<Rightarrow> False | Some v \<Rightarrow> v \<noteq> [])"

text \<open>The tail that both versions of \<open>handleDeleteShot\<close> share: delete the current shot.\<close>

definition deleteCurrentShot :: "StoryboardData \<Rightarrow> ViewerState \<Rightarrow> error + ViewerState" where
  "deleteCurrentShot sb v =
     (case nth_opt (sb_scenes sb) (currentShot_sceneIndex v) of
        None \<Rightarrow> Inl TypeError
      | Some scene \<Rightarrow>
          if length (scene_shots scene) \<le> 1 then Inr v
          else (case nth_opt (scene_shots scene) (currentShot_shotIndex v) of
                  None \<Rightarrow> Inl TypeError
                | Some shot \<Rightarrow> Inr (v\<lparr> confirmDelete := Some (DeleteShot, shot_id shot) \<rparr>)))"

text \<open>The viewer with the guards (the second component of the two).\<close>

definition handleDeleteShot ::
  "StoryboardData \<Rightarrow> jsstring option \<Rightarrow> jsstring option \<Rightarrow> ViewerState \<Rightarrow> error + ViewerState" where
  "handleDeleteShot sb sceneId shotId v =
     (if truthy sceneId \<and> truthy shotId
      then (case find (\<lambda>s. Some (scene_id s) = sceneId) (sb_scenes sb) of
              None \<Rightarrow> Inr v
            | Some scene \<Rightarrow>
                if length (scene_shots scene) \<le> 1 then Inr v
                else Inr (v\<lparr> confirmDelete := Some (DeleteShot, the shotId) \<rparr>))
      else deleteCurrentShot sb v)"

definition handleDeleteScene ::
  "StoryboardData \<Rightarrow> jsstring option \<Rightarrow> ViewerState \<Rightarrow> error + ViewerState" where
  "handleDeleteScene sb sceneId v =
     (if truthy sceneId
      then (if length (sb_scenes sb) \<le> 1 then Inr v
            else Inr (v\<lparr> confirmDelete := Some (DeleteScene, the sceneId) \<rparr>))
      else if length (sb_scenes sb) \<le> 1 then Inr v
      else (case nth_opt (sb_scenes sb) (currentShot_sceneIndex v) of
              None \<Rightarrow> Inl TypeError
            | Some scene \<Rightarrow> Inr (v\<lparr> confirmDelete := Some (DeleteScene, scene_id scene) \<rparr>)))"

text \<open>
  The other viewer (the first component of the two). Its \<open>handleDeleteShot\<close> sets
  \<open>confirmDelete\<close> twice, around the comment \<open>Don't allow deleting the last shot in a
  scene\<close>, without looking at the scene; its \<open>handleDeleteScene\<close> takes no argument.
\<close>

definition handleDeleteShot_first ::
  "StoryboardData \<Rightarrow> jsstring option \<Rightarrow> jsstring option \<Rightarrow> ViewerState \<Rightarrow> error + ViewerState" where
  "handleDeleteShot_first sb sceneId shotId v =
     (if truthy sceneId \<and> truthy shotId
      then Inr ((v\<lparr> confirmDelete := Some (DeleteShot, the shotId) \<rparr>)
                  \<lparr> confirmDelete := Some (DeleteShot, the shotId) \<rparr>)
      else deleteCurrentShot sb v)"

definition handleDeleteScene_first :: "StoryboardData \<Rightarrow> ViewerState \<Rightarrow> error + ViewerState" where
  "handleDeleteScene_first sb v =
     (case nth_opt (sb_scenes sb) (currentShot_sceneIndex v) of
        None \<Rightarrow> Inl TypeError
      | Some scene \<Rightarrow> Inr (v\<lparr> confirmDelete := Some (DeleteScene, scene_id scene) \<rparr>))"

text \<open>
  \<open>confirmDeleteItem\<close>, the same in both viewers: the button of the confirmation dialog.
  It calls \<open>removeShot\<close> or \<open>removeScene\<close> of the provider and then moves the current
  shot; the provider's state is returned also when that second part throws.
\<close>

definition findIndex :: "('a \<Rightarrow> bool) \<Rightarrow> 'a list \<Rightarrow> nat option" where
  "findIndex P xs = (if list_ex P xs then Some (length (takeWhile (\<lambda>x. \<not> P x) xs)) else None)"

definition confirmDeleteItem ::
  "ProviderState \<Rightarrow> ViewerState \<Rightarrow> ProviderState \<times> (error + ViewerState)" where
  "confirmDeleteItem st v =
     (case storyboardData st of
        None \<Rightarrow> (st, Inr v)
      | Some sb \<Rightarrow>
          (case confirmDelete v of
             None \<Rightarrow> (st, Inr v)
           | Some (DeleteShot, ident) \<Rightarrow>
               (case find (\<lambda>scene. list_ex (\<lambda>shot. shot_id shot = ident) (scene_shots scene))
                       (sb_scenes sb) of
                  None \<Rightarrow> (st, Inr v)
                | Some scene \<Rightarrow>
                    (removeShot (scene_id scene) ident st,
                     (case nth_opt (sb_scenes sb) (currentShot_sceneIndex v) of
                        None \<Rightarrow> Inl TypeError
                      | Some current \<Rightarrow>
                          Inr ((if scene_id scene = scene_id current
                                  \<and> int (currentShot_shotIndex v)
                                      \<ge> int (length (scene_shots current)) - 1
                                then v\<lparr> currentShot_shotIndex :=
                                         nat (max 0 (int (length (scene_shots current)) - 2)) \<rparr>
                                else v)
                               \<lparr> confirmDelete := None \<rparr>))))
           | Some (DeleteScene, ident) \<Rightarrow>
               (removeScene ident st,
                Inr ((case findIndex (\<lambda>scene. scene_id scene = ident) (sb_scenes sb) of
                        None \<Rightarrow> v
                      | Some deletedSceneIndex \<Rightarrow>
                          if currentShot_sceneIndex v \<ge> deletedSceneIndex
                          then v\<lparr> currentShot_sceneIndex :=
                                   nat (max 0 (int (currentShot_sceneIndex v) - 1)),
                                 currentShot_shotIndex := 0,
                                 activeScene := nat (max 0 (int (currentShot_sceneIndex v) - 1)) \<rparr>
                          else v)
                     \<lparr> confirmDelete := None \<rparr>))))"

text \<open>
  A click on a delete button followed by a click on the confirmation button. When the
  first handler throws, nothing is deleted.
\<close>

definition deleteShotConfirmed ::
  "jsstring option \<Rightarrow> jsstring option \<Rightarrow> ProviderState \<Rightarrow> ViewerState \<Rightarrow> ProviderState" where
  "deleteShotConfirmed sceneId shotId st v =
     (case storyboardData st of
        None \<Rightarrow> st
      | Some sb \<Rightarrow>
          (case handleDeleteShot sb sceneId shotId v of
             Inl e \<Rightarrow> st
           | Inr v' \<Rightarrow> fst (confirmDeleteItem st v')))"

definition deleteSceneConfirmed ::
  "jsstring option \<Rightarrow> ProviderState \<Rightarrow> ViewerState \<Rightarrow> ProviderState" where
  "deleteSceneConfirmed sceneId st v =
     (case storyboardData st of
        None \<Rightarrow> st
      | Some sb \<Rightarrow>
          (case handleDeleteScene sb sceneId v of
             Inl e \<Rightarrow> st
           | Inr v' \<Rightarrow> fst (confirmDeleteItem st v')))"

definition deleteShotConfirmed_first ::
  "jsstring option \<Rightarrow> jsstring option \<Rightarrow> ProviderState \<Rightarrow> ViewerState \<Rightarrow> ProviderState" where
  "deleteShotConfirmed_first sceneId shotId st v =
     (case storyboardData st of
        None \<Rightarrow> st
      | Some sb \<Rightarrow>
          (case handleDeleteShot_first sb sceneId shotId v of
             Inl e \<Rightarrow> st
           | Inr v' \<Rightarrow> fst (confirmDeleteItem st v')))"

definition deleteSceneConfirmed_first :: "ProviderState \<Rightarrow> ViewerState \<Rightarrow> ProviderState" where
  "deleteSceneConfirmed_first st v =
     (case storyboardData st of
        None \<Rightarrow> st
      | Some sb \<Rightarrow>
          (case handleDeleteScene_first sb v of
             Inl e \<Rightarrow> st
           | Inr v' \<Rightarrow> fst (confirmDeleteItem st v')))"

section \<open>Print preview pagination\<close>

text \<open>
  The effect of \<open>PrintPreview\<close> that builds the pages. An entry of a page names a shot
  and its scene (its position and scale, copied from the shot, are left out); the scene
  header of a page names a scene.
\<close>

datatype Layout = Grid | ListLayout | Detailed

record PreviewShot =
  pv_shotId :: jsstring
  pv_sceneId :: jsstring

record PrintPreviewPage =
  page_pageNumber :: nat
  page_shots :: "PreviewShot list"
  page_sceneHeader :: "jsstring option"

record PaginationState =
  pages :: "PrintPreviewPage list"
  currentPageShots :: "PreviewShot list"
  currentPageNumber :: nat
  currentSceneHeader :: "jsstring option"

definition pushPage :: "PaginationState \<Rightarrow> PaginationState" where
  "pushPage s =
     \<lparr> pages = pages s @ [\<lparr> page_pageNumber = currentPageNumber s,
                             page_shots = currentPageShots s,
                             page_sceneHeader = currentSceneHeader s \<rparr>],
       currentPageShots = [],
       currentPageNumber = currentPageNumber s + 1,
       currentSceneHeader = None \<rparr>"

text \<open>The body of \<open>scene.shots.forEach\<close>.\<close>

definition shotStep :: "nat \<Rightarrow> SceneInfo \<Rightarrow> PaginationState \<Rightarrow> ShotInfo \<Rightarrow> PaginationState" where
  "shotStep shotsPerPage scene s shot =
     (let s' = s\<lparr> currentPageShots :=
                   currentPageShots s @ [\<lparr> pv_shotId = shot_id shot, pv_sceneId = scene_id scene \<rparr>] \<rparr>
      in if length (currentPageShots s') \<ge> shotsPerPage then pushPage s' else s')"

text \<open>The body of \<open>storyboardData.scenes.forEach\<close>.\<close>

definition sceneStep :: "nat \<Rightarrow> PaginationState \<Rightarrow> SceneInfo \<Rightarrow> PaginationState" where
  "sceneStep shotsPerPage s scene =
     (let s1 = (if scene_printPageBreakBefore scene = Some True \<and> length (currentPageShots s) > 0
                then pushPage s else s);
          s2 = s1\<lparr> currentSceneHeader := Some (scene_id scene) \<rparr>
      in foldl (shotStep shotsPerPage scene) s2 (scene_shots scene))"

definition previewPages :: "Layout \<Rightarrow> nat \<Rightarrow> StoryboardData \<Rightarrow> PrintPreviewPage list" where
  "previewPages layout settingsShotsPerPage sb =
     (let shotsPerPage = (if layout = Detailed then 1 else settingsShotsPerPage);
          s0 = \<lparr> pages = [], currentPageShots = [], currentPageNumber = 1,
                 currentSceneHeader = None \<rparr>;
          s = foldl (sceneStep shotsPerPage) s0 (sb_scenes sb)
      in if length (currentPageShots s) > 0 then pages (pushPage s) else pages s)"

text \<open>The quantities of the claim: the shots of the storyboard and the flagged scenes.\<close>

definition totalShots :: "StoryboardData \<Rightarrow> nat" where
  "totalShots sb = sum_list (map (\<lambda>scene. length (scene_shots scene)) (sb_scenes sb))"

definition flagged :: "SceneInfo \<Rightarrow> bool" where
  "flagged scene = (scene_printPageBreakBefore scene = Some True)"

definition ceilDiv :: "nat \<Rightarrow> nat \<Rightarrow> nat" where
  "ceilDiv s l = (s + l - 1) div l"

text \<open>
  The pages described without the loop, for a limit of \<open>L\<close> shots a page. The scenes
  are taken in their order and put into groups: a scene flagged \<open>printPageBreakBefore\<close>
  closes the group before it and starts a new one. The shots of a group, in their order,
  are cut into pages of \<open>L\<close> shots, the last page of the group holding what remains; a
  limit of 0 acts as a limit of 1.
\<close>

definition entries :: "SceneInfo \<Rightarrow> PreviewShot list" where
  "entries scene =
     map (\<lambda>shot. \<lparr> pv_shotId = shot_id shot, pv_sceneId = scene_id scene \<rparr>) (scene_shots scene)"

fun breakGroups :: "PreviewShot list \<Rightarrow> SceneInfo list \<Rightarrow> PreviewShot list list" where
  "breakGroups g [] = [g]"
| "breakGroups g (scene # rest) =
     (if flagged scene then g # breakGroups (entries scene) rest
      else breakGroups (g @ entries scene) rest)"

function chunks :: "nat \<Rightarrow> 'a list \<Rightarrow> 'a list list" where
  "chunks L xs = (if xs = [] then [] else take (max 1 L) xs # chunks L (drop (max 1 L) xs))"
  by pat_completeness auto
termination
  by (relation "measure (\<lambda>(L, xs). length xs)") auto

declare chunks.simps [simp del]

definition groupedPages :: "nat \<Rightarrow> SceneInfo list \<Rightarrow> PreviewShot list list" where
  "groupedPages L scenes = concat (map (chunks L) (breakGroups [] scenes))"

section \<open>The image generation services\<close>

subsection \<open>\<open>encodeURIComponent\<close>\<close>

text \<open>
  The platform's encoder, after ECMA-262: letters, digits and \<open>- _ . ! ~ * ' ( )\<close> are
  kept; every other code point is written as the percent-encoded octets of its UTF-8
  form; a surrogate code unit that is not part of a pair throws a \<open>URIError\<close>.
\<close>

definition uriUnreserved :: "16 word \<Rightarrow> bool" where
  "uriUnreserved c =
     (let n = unat c in
        (65 \<le> n \<and> n \<le> 90) \<or> (97 \<le> n \<and> n \<le> 122) \<or> (48 \<le> n \<and> n \<le> 57)
        \<or> n \<in> {45, 95, 46, 33, 126, 42, 39, 40, 41})"

definition isHighSurrogate :: "16 word \<Rightarrow> bool" where
  "isHighSurrogate c = (0xD800 \<le> unat c \<and> unat c \<le> 0xDBFF)"

definition isLowSurrogate :: "16 word \<Rightarrow> bool" where
  "isLowSurrogate c = (0xDC00 \<le> unat c \<and> unat c \<le> 0xDFFF)"

definition codePoint :: "16 word \<Rightarrow> 16 word \<Rightarrow> nat" where
  "codePoint hi lo = (unat hi - 0xD800) * 0x400 + (unat lo - 0xDC00) + 0x10000"

definition utf8 :: "nat \<Rightarrow> nat list" where
  "utf8 cp =
     (if cp < 0x80 then [cp]
      else if cp < 0x800 then [0xC0 + cp div 64, 0x80 + cp mod 64]
      else if cp < 0x10000
      then [0xE0 + cp div 4096, 0x80 + (cp div 64) mod 64, 0x80 + cp mod 64]
      else [0xF0 + cp div 262144, 0x80 + (cp div 4096) mod 64, 0x80 + (cp div 64) mod 64,
            0x80 + cp mod 64])"

definition hexDigit :: "nat \<Rightarrow> 16 word" where
  "hexDigit n = of_nat (if n < 10 then 48 + n else 55 + n)"

definition percentEncode :: "nat list \<Rightarrow> jsstring" where
  "percentEncode octets = concat (map (\<lambda>b. [0x25, hexDigit (b div 16), hexDigit (b mod 16)]) octets)"

fun encodeURIComponent :: "jsstring \<Rightarrow> error + jsstring" where
  "encodeURIComponent [] = Inr []"
| "encodeURIComponent (c # cs) =
     (if uriUnreserved c
      then (case encodeURIComponent cs of Inl e \<Rightarrow> Inl e | Inr r \<Rightarrow> Inr (c # r))
      else if isLowSurrogate c then Inl URIError
      else if isHighSurrogate c
      then (case cs of
              [] \<Rightarrow> Inl URIError
            | d # ds \<Rightarrow>
                if isLowSurrogate d
                then (case encodeURIComponent ds of
                        Inl e \<Rightarrow> Inl e
                      | Inr r \<Rightarrow> Inr (percentEncode (utf8 (codePoint c d)) @ r))
                else Inl URIError)
      else (case encodeURIComponent cs of
              Inl e \<Rightarrow> Inl e
            | Inr r \<Rightarrow> Inr (percentEncode (utf8 (unat c)) @ r)))"

subsection \<open>The two adapters\<close>

text \<open>
  \<open>FalImageService\<close> and \<open>ImageGenerationService\<close> have the same queue and differ in
  \<open>generatePlaceholderImage\<close> and in what \<open>processQueue\<close> does with an API key: the first
  never calls an API (that code is commented out), the second awaits one of its
  \<open>call...API\<close> methods, which wait two seconds and return the placeholder.
\<close>

datatype Adapter = FalImageService | ImageGenerationService

definition placeholderUrl :: "jsstring \<Rightarrow> jsstring" where
  "placeholderUrl query =
     js ''/placeholder.svg?height='' @ natToString 450 @ js ''&width='' @ natToString 800
     @ js ''&query='' @ query"

definition generatePlaceholderImage :: "Adapter \<Rightarrow> jsstring \<Rightarrow> error + jsstring" where
  "generatePlaceholderImage adapter prompt =
     (case encodeURIComponent
             (case adapter of
                FalImageService \<Rightarrow> take 100 prompt
              | ImageGenerationService \<Rightarrow> prompt) of
        Inl e \<Rightarrow> Inl e
      | Inr query \<Rightarrow> Inr (placeholderUrl query))"

text \<open>
  A request is the prompt of the options and the promise that \<open>generateImage\<close> returned,
  named by its number in the order of the calls. The service logs what happens to every
  promise it takes from the queue: it is resolved with a URL, or the exception of
  \<open>generatePlaceholderImage\<close> is caught by \<open>processQueue\<close>, which logs it and calls
  neither \<open>resolve\<close> nor \<open>reject\<close>.
\<close>

record Request =
  req_promise :: nat
  req_prompt :: jsstring

datatype Outcome = Resolved nat jsstring | Abandoned nat error

fun outcomePromise :: "Outcome \<Rightarrow> nat" where
  "outcomePromise (Resolved n url) = n"
| "outcomePromise (Abandoned n e) = n"

record Service =
  adapter :: Adapter
  apiKey :: bool
  requestQueue :: "Request list"
  isProcessing :: bool
  awaiting :: "Request list"
  timers :: nat
  outcomes :: "Outcome list"
  calls :: nat

definition newService :: "Adapter \<Rightarrow> bool \<Rightarrow> Service" where
  "newService a k =
     \<lparr> adapter = a, apiKey = k, requestQueue = [], isProcessing = False, awaiting = [],
       timers = 0, outcomes = [], calls = 0 \<rparr>"

definition callsApi :: "Service \<Rightarrow> bool" where
  "callsApi s = (adapter s = ImageGenerationService \<and> apiKey s)"

text \<open>
  The end of \<open>processQueue\<close> for one request: \<open>resolve(url)\<close> or the \<open>catch\<close>, then the
  \<open>finally\<close> block, which clears \<open>isProcessing\<close> and arms a timer of 100 ms.
\<close>

definition finishRequest :: "Request \<Rightarrow> Service \<Rightarrow> Service" where
  "finishRequest r s =
     s\<lparr> outcomes :=
          outcomes s @ [case generatePlaceholderImage (adapter s) (req_prompt r) of
                          Inl e \<Rightarrow> Abandoned (req_promise r) e
                        | Inr url \<Rightarrow> Resolved (req_promise r) url],
        isProcessing := False,
        timers := timers s + 1 \<rparr>"

text \<open>
  \<open>processQueue\<close> up to its first suspension: without an API call it runs to its end;
  with one it stops at the \<open>await\<close>, the request in \<open>awaiting\<close>.
\<close>

definition processQueue :: "Service \<Rightarrow> Service" where
  "processQueue s =
     (if isProcessing s \<or> requestQueue s = [] then s
      else (let r = hd (requestQueue s);
                s' = s\<lparr> isProcessing := True, requestQueue := tl (requestQueue s) \<rparr>
            in if callsApi s then s'\<lparr> awaiting := awaiting s' @ [r] \<rparr>
               else finishRequest r s'))"

text \<open>
  What can happen to a service on the single thread: a call of \<open>generateImage\<close>; a timer
  armed by \<open>processQueue\<close> firing; the API call of the \<open>k\<close>-th awaiting request returning.
  \<open>step\<close> is \<open>None\<close> when the event cannot happen in the state.
\<close>

datatype Event = GenerateImage jsstring | TimerFires | ApiReturns nat

definition step :: "Event \<Rightarrow> Service \<Rightarrow> Service option" where
  "step ev s =
     (case ev of
        GenerateImage prompt \<Rightarrow>
          Some (processQueue
                  (s\<lparr> requestQueue :=
                        requestQueue s @ [\<lparr> req_promise = calls s, req_prompt = prompt \<rparr>],
                      calls := calls s + 1 \<rparr>))
      | TimerFires \<Rightarrow>
          if timers s = 0 then None else Some (processQueue (s\<lparr> timers := timers s - 1 \<rparr>))
      | ApiReturns k \<Rightarrow>
          if k < length (awaiting s)
          then Some (finishRequest (awaiting s ! k)
                       (s\<lparr> awaiting := take k (awaiting s) @ drop (Suc k) (awaiting s) \<rparr>))
          else None)"

fun run :: "Event list \<Rightarrow> Service \<Rightarrow> Service option" where
  "run [] s = Some s"
| "run (ev # evs) s = (case step ev s of None \<Rightarrow> None | Some s' \<Rightarrow> run evs s')"

text \<open>
  The prompts that \<open>generateImage\<close> is called with among the events, in the order of the
  calls. \<open>settled a n prompt\<close> is what adapter \<open>a\<close> does with promise \<open>n\<close> of a request
  for \<open>prompt\<close> when it is done with it. \<open>tracks a ps s\<close> says that the requests and the
  settled promises of state \<open>s\<close> are those of calls with the prompts \<open>ps\<close>.
\<close>

fun prompts :: "Event list \<Rightarrow> jsstring list" where
  "prompts [] = []"
| "prompts (GenerateImage p # evs) = p # prompts evs"
| "prompts (TimerFires # evs) = prompts evs"
| "prompts (ApiReturns k # evs) = prompts evs"

definition settled :: "Adapter \<Rightarrow> nat \<Rightarrow> jsstring \<Rightarrow> Outcome" where
  "settled a n prompt =
     (case generatePlaceholderImage a prompt of
        Inl e \<Rightarrow> Abandoned n e
      | Inr url \<Rightarrow> Resolved n url)"

definition tracks :: "Adapter \<Rightarrow> jsstring list \<Rightarrow> Service \<Rightarrow> bool" where
  "tracks a ps s \<longleftrightarrow>
     adapter s = a \<and> calls s = length ps
     \<and> (\<forall>r \<in> set (awaiting s) \<union> set (requestQueue s).
           req_promise r < length ps \<and> req_prompt r = ps ! req_promise r)
     \<and> (\<forall>out \<in> set (outcomes s).
           outcomePromise out < length ps
           \<and> out = settled a (outcomePromise out) (ps ! outcomePromise out))"

section \<open>Example values\<close>

definition exampleShotA :: ShotInfo where
  "exampleShotA =
     \<lparr> shot_id = js ''a'', shot_sceneId = js ''s1'', shot_sceneContext = js ''Alice ran. She fell.'',
       shot_shotDescription = js ''Alice ran.'', shot_shotType = LS, shot_cameraAngle = EYE_LEVEL,
       shot_cameraMovement = STATIC, shot_lighting = Some (js ''Natural lighting''),
       shot_prompt = None, shot_imageUrl = None \<rparr>"

definition exampleShotB :: ShotInfo where
  "exampleShotB =
     exampleShotA\<lparr> shot_id := js ''b'', shot_shotDescription := js ''She fell.'', shot_shotType := CU \<rparr>"

definition exampleShotC :: ShotInfo where
  "exampleShotC =
     exampleShotA\<lparr> shot_id := js ''c'', shot_sceneId := js ''s2'',
                   shot_sceneContext := js ''Bob laughed.'',
                   shot_shotDescription := js ''Bob laughed.'' \<rparr>"

definition exampleScene1 :: SceneInfo where
  "exampleScene1 =
     \<lparr> scene_id = js ''s1'', scene_title = js ''Scene 1'', scene_description = js ''Alice ran. She fell.'',
       scene_shots = [exampleShotA, exampleShotB], scene_printPageBreakBefore = None \<rparr>"

definition exampleScene2 :: SceneInfo where
  "exampleScene2 =
     \<lparr> scene_id = js ''s2'', scene_title = js ''Scene 2'', scene_description = js ''Bob laughed.'',
       scene_shots = [exampleShotC], scene_printPageBreakBefore = None \<rparr>"

definition exampleStoryboard :: StoryboardData where
  "exampleStoryboard =
     \<lparr> sb_id = js ''p1'', sb_title = js ''Alice ran.'', sb_author = Some (js ''AI Storyboard Generator''),
       sb_director = Some (js ''User''), sb_date = js ''2025-01-01'', sb_version = js ''1.0'',
       sb_style = Cinematic, sb_aspectRatio = R16_9,
       sb_scenes = [exampleScene1, exampleScene2],
       sb_templateStyle = None, sb_annotations = Some [] \<rparr>"

text \<open>\<open>defaultStyleSettings\<close> of the provider.\<close>

definition defaultStyleSettings :: StyleSettings where
  "defaultStyleSettings =
     \<lparr> ss_visualStyle = Cinematic, ss_aspectRatio = R16_9, ss_quality = Standard,
       ss_styleModifiers = Some [], ss_artistReference = None, ss_colorPalette = None,
       ss_characterDescriptions = Some [] \<rparr>"

definition exampleState :: ProviderState where
  "exampleState =
     \<lparr> storyInput = exampleStory, storyboardData = Some exampleStoryboard,
       styleSettings = defaultStyleSettings, characters = [js ''Alice''],
       characterDescriptions = [(js ''Alice'', js ''tall'')], versionHistory = [],
       currentVersionIndex = 0, savedTemplateStyles = [], projectSaved = False \<rparr>"

text \<open>A storyboard whose only scene has a single shot.\<close>

definition soloState :: ProviderState where
  "soloState =
     exampleState\<lparr> storyboardData := Some (exampleStoryboard\<lparr> sb_scenes := [exampleScene2] \<rparr>) \<rparr>"

text \<open>The viewer as it is mounted: \<open>useState\<close> defaults.\<close>

definition initialViewer :: ViewerState where
  "initialViewer =
     \<lparr> currentShot_sceneIndex = 0, currentShot_shotIndex = 0, activeScene = 0,
       confirmDelete = None \<rparr>"

definition noUpdates :: PartialShotInfo where
  "noUpdates =
     \<lparr> p_id = None, p_sceneId = None, p_sceneContext = None, p_shotDescription = None,
       p_shotType = None, p_cameraAngle = None, p_cameraMovement = None, p_lighting = None,
       p_prompt = None, p_imageUrl = None \<rparr>"

text \<open>What \<open>uuidv4()\<close> may return, and a new scene that brings a shot of its own.\<close>

definition exampleUuids :: "nat \<Rightarrow> jsstring" where
  "exampleUuids k = js ''u'' @ natToString k"

definition exampleNewScene :: PartialSceneInfo where
  "exampleNewScene =
     \<lparr> ps_id = Some (js ''s3''), ps_title = None, ps_description = None,
       ps_shots = Some [exampleShotC\<lparr> shot_id := js ''d'', shot_sceneId := js ''s3'' \<rparr>],
       ps_printPageBreakBefore = None \<rparr>"

text \<open>
  A project as an older version of the application may have stored it: the storyboard
  has no \<open>annotations\<close>, and the version history and the templates are missing.
\<close>

definition legacyBlob :: ProjectBlob where
  "legacyBlob =
     \<lparr> pb_storyboardData = Some (exampleStoryboard\<lparr> sb_annotations := None \<rparr>),
       pb_storyInput = exampleStory, pb_styleSettings = defaultStyleSettings,
       pb_characters = [], pb_characterDescriptions = [], pb_versionHistory = None,
       pb_currentVersionIndex = None, pb_savedTemplateStyles = None \<rparr>"

text \<open>
  A storyboard of four shots: a scene with one shot, then a scene flagged to start on a
  new page, with three.
\<close>

definition breakStoryboard :: StoryboardData where
  "breakStoryboard =
     exampleStoryboard
       \<lparr> sb_scenes :=
           [exampleScene2,
            exampleScene1
              \<lparr> scene_shots := [exampleShotA, exampleShotB, exampleShotA\<lparr> shot_id := js ''e'' \<rparr>],
                scene_printPageBreakBefore := Some True \<rparr>] \<rparr>"

text \<open>
  Two prompts: 101 letters \<open>a\<close>; and 99 letters \<open>a\<close> followed by U+1F600, which is the
  surrogate pair D83D DE00, so that the first 100 code units end in the middle of the pair.
\<close>

definition longPrompt :: jsstring where
  "longPrompt = replicate 101 0x61"

definition emojiPrompt :: jsstring where
  "emojiPrompt = replicate 99 0x61 @ [0xD83D, 0xDE00]"

text \<open>
  A service that has abandoned a first request, at the moment when the second call of
  \<open>generateImage\<close> has pushed its request and calls \<open>processQueue\<close>.
\<close>

definition queuedService :: Service where
  "queuedService =
     (newService ImageGenerationService False)
       \<lparr> requestQueue := [\<lparr> req_promise = 1, req_prompt = longPrompt \<rparr>],
         outcomes := [Abandoned 0 URIError], timers := 1, calls := 2 \<rparr>"

section \<open>Properties of the story segmentation\<close>

subsection \<open>Splitting\<close>

lemma splitOn_nonempty: "splitOn s xs \<noteq> []"
  by (induction xs) (auto split: list.splits)

lemma split_runs_nonempty: "split_runs f xs \<noteq> []"
  by (induction f xs rule: split_runs.induct) (auto split: list.splits)

lemma filter_splitOn_dropWhile:
  "\<not> P [] \<Longrightarrow> filter P (splitOn s (dropWhile (\<lambda>c. c = s) xs)) = filter P (splitOn s xs)"
  by (induction xs) auto

lemma split_runs_splitOn:
  assumes "\<not> P []"
  shows "hd (split_runs (\<lambda>c. c = s) xs) = hd (splitOn s xs)
       \<and> filter P (tl (split_runs (\<lambda>c. c = s) xs)) = filter P (tl (splitOn s xs))"
proof (induction "\<lambda>c. c = s" xs rule: split_runs.induct)
  case 1
  show ?case by simp
next
  case (2 c cs)
  show ?case
  proof (cases "c = s")
    case True
    have "filter P (split_runs (\<lambda>c. c = s) (dropWhile (\<lambda>c. c = s) cs))
            = filter P (splitOn s (dropWhile (\<lambda>c. c = s) cs))"
      using 2(1) [OF True] split_runs_nonempty [of "\<lambda>c. c = s" "dropWhile (\<lambda>c. c = s) cs"]
        splitOn_nonempty [of s "dropWhile (\<lambda>c. c = s) cs"]
      by (cases "split_runs (\<lambda>c. c = s) (dropWhile (\<lambda>c. c = s) cs)";
          cases "splitOn s (dropWhile (\<lambda>c. c = s) cs)") auto
    then show ?thesis using True assms by (simp add: filter_splitOn_dropWhile)
  next
    case False
    then show ?thesis
      using 2(2) split_runs_nonempty [of "\<lambda>c. c = s" cs] splitOn_nonempty [of s cs]
      by (cases "split_runs (\<lambda>c. c = s) cs"; cases "splitOn s cs") auto
  qed
qed

lemma filter_split_runs_splitOn:
  assumes "\<not> P []"
  shows "filter P (split_runs (\<lambda>c. c = s) xs) = filter P (splitOn s xs)"
  using split_runs_splitOn [of P s xs] assms split_runs_nonempty [of "\<lambda>c. c = s" xs]
    splitOn_nonempty [of s xs]
  by (cases "split_runs (\<lambda>c. c = s) xs"; cases "splitOn s xs") auto

text \<open>
  What the source calls a paragraph: since the text is split at every run of line feeds,
  the paragraphs are exactly the lines of the text that hold a character other than
  white space, in their order. A single line feed separates two paragraphs; a blank line
  is not needed.
\<close>

lemma paragraphs_nonblank_lines:
  "paragraphs storyText = filter (\<lambda>l. trim l \<noteq> []) (splitOn 0x0A storyText)"
proof -
  have "isLineFeed = (\<lambda>c. c = 0x0A)" by (simp add: isLineFeed_def fun_eq_iff)
  then show ?thesis
    using filter_split_runs_splitOn [of "\<lambda>l. trim l \<noteq> []" "0x0A" storyText]
    by (simp add: paragraphs_def trim_def)
qed

subsection \<open>Iterating over shots and scenes\<close>

lemma randomIndex_less: "0 \<le> r \<Longrightarrow> r < 1 \<Longrightarrow> 0 < n \<Longrightarrow> randomIndex r n < n"
proof -
  assume r: "0 \<le> r" "r < 1" and n: "0 < n"
  have "r * real n < real n" using r n by simp
  then have "\<lfloor>r * real n\<rfloor> < int n" by (simp add: floor_less_iff)
  moreover have "0 \<le> \<lfloor>r * real n\<rfloor>" using r by simp
  ultimately show ?thesis unfolding randomIndex_def by linarith
qed

lemma shotsLoop_length:
  "length (fst (shotsLoop rnd pos p N i shots)) = length shots + (N - i)"
proof (induction rnd pos p N i shots rule: shotsLoop.induct)
  case (1 rnd pos p N i shots)
  show ?case
  proof (cases "i < N")
    case True
    then show ?thesis using 1 by (simp add: shotsLoop.simps [of rnd pos p N i shots])
  next
    case False
    then show ?thesis by (simp add: shotsLoop.simps [of rnd pos p N i shots])
  qed
qed

lemma shotsLoop_descriptions:
  "map as_description (fst (shotsLoop rnd pos p N i shots))
     = map as_description shots @ map (shotDescription p N) [i..<N]"
proof (induction rnd pos p N i shots rule: shotsLoop.induct)
  case (1 rnd pos p N i shots)
  show ?case
  proof (cases "i < N")
    case True
    then have "[i..<N] = i # [Suc i..<N]" by (simp add: upt_conv_Cons)
    then show ?thesis using 1 True
      by (simp add: shotsLoop.simps [of rnd pos p N i shots] makeShot_def Let_def)
  next
    case False
    then show ?thesis by (simp add: shotsLoop.simps [of rnd pos p N i shots])
  qed
qed

lemma makeScene_description: "an_description (fst (makeScene rnd pos index p)) = p"
  by (simp add: makeScene_def Let_def case_prod_beta)

lemma makeScene_shots:
  "length (an_shots (fst (makeScene rnd pos index p))) = randomIndex (rnd pos) 3 + 2"
  by (simp add: makeScene_def Let_def case_prod_beta shotsLoop_length)

lemma makeScene_shot_descriptions:
  "map as_description (an_shots (fst (makeScene rnd pos index p)))
     = map (shotDescription p (randomIndex (rnd pos) 3 + 2)) [0..<randomIndex (rnd pos) 3 + 2]"
  by (simp add: makeScene_def Let_def case_prod_beta shotsLoop_descriptions)

lemma scenesLoop_descriptions:
  "map an_description (fst (scenesLoop rnd pos index ps)) = ps"
proof (induction ps arbitrary: pos index)
  case Nil
  show ?case by simp
next
  case (Cons p ps)
  show ?case
    using Cons [of "snd (makeScene rnd pos index p)" "index + 1"]
    by (simp add: Let_def case_prod_beta makeScene_description)
qed

lemma scenesLoop_shot_counts:
  assumes "validRandom rnd"
  shows "\<forall>sc \<in> set (fst (scenesLoop rnd pos index ps)).
           2 \<le> length (an_shots sc) \<and> length (an_shots sc) \<le> 4"
proof (induction ps arbitrary: pos index)
  case Nil
  show ?case by simp
next
  case (Cons p ps)
  have "randomIndex (rnd pos) 3 < 3"
    using assms by (intro randomIndex_less) (auto simp: validRandom_def)
  then have h: "2 \<le> length (an_shots (fst (makeScene rnd pos index p)))
             \<and> length (an_shots (fst (makeScene rnd pos index p))) \<le> 4"
    by (simp add: makeScene_shots)
  show ?case
    using Cons [of "snd (makeScene rnd pos index p)" "index + 1"] h
    by (simp add: Let_def case_prod_beta)
qed

lemma scenesLoop_shot_descriptions:
  "\<forall>sc \<in> set (fst (scenesLoop rnd pos index ps)).
     map as_description (an_shots sc)
       = map (shotDescription (an_description sc) (length (an_shots sc)))
           [0..<length (an_shots sc)]"
proof (induction ps arbitrary: pos index)
  case Nil
  show ?case by simp
next
  case (Cons p ps)
  have m: "map as_description (an_shots (fst (makeScene rnd pos index p)))
             = map (shotDescription (an_description (fst (makeScene rnd pos index p)))
                      (length (an_shots (fst (makeScene rnd pos index p)))))
                 [0..<length (an_shots (fst (makeScene rnd pos index p)))]"
    unfolding makeScene_shots makeScene_description
    by (rule makeScene_shot_descriptions)
  show ?case
    using Cons [of "snd (makeScene rnd pos index p)" "index + 1"] m
    by (simp add: Let_def case_prod_beta)
qed

lemma validRandom_zeroRandom: "validRandom zeroRandom"
  by (simp add: validRandom_def zeroRandom_def)

lemma randomIndex_zeroRandom: "randomIndex (zeroRandom n) k = 0"
  by (simp add: randomIndex_def zeroRandom_def)

subsection \<open>Scenes and shot counts\<close>


lemma example_paragraphs:
  "paragraphs exampleStory = [js ''Alice ran. She fell.'', js ''Bob laughed.'']"
  by (simp add: exampleStory_def paragraphs_def js_def isLineFeed_def trim_def isWhiteSpace_def)


subsection \<open>Which sentences a shot describes\<close>

lemma floor_step:
  fixes x :: real
  assumes "0 \<le> x"
  shows "nat \<lfloor>x * real (Suc i)\<rfloor> \<le> nat \<lfloor>x * real i\<rfloor> + nat \<lceil>x\<rceil>"
proof -
  have "x * real (Suc i) = x * real i + x" by (simp add: algebra_simps)
  moreover have "\<lfloor>x * real i + x\<rfloor> \<le> \<lfloor>x * real i\<rfloor> + \<lceil>x\<rceil>"
    by (metis floor_add_int floor_mono add_left_mono le_of_int_ceiling)
  moreover have "0 \<le> \<lfloor>x * real i\<rfloor>" using assms by simp
  moreover have "0 \<le> \<lceil>x\<rceil>" using ceiling_mono [of 0 x] assms by simp
  ultimately show ?thesis by simp
qed

lemma floor_last:
  assumes "0 < N"
  shows "n \<le> nat \<lfloor>(real n / real N) * real (N - 1)\<rfloor> + nat \<lceil>real n / real N\<rceil>"
proof -
  let ?x = "real n / real N"
  have "?x * real (N - 1) = real n - ?x"
    using assms by (simp add: of_nat_diff field_simps)
  then have "\<lfloor>?x * real (N - 1)\<rfloor> = int n - \<lceil>?x\<rceil>"
    by (simp add: ceiling_def) (metis floor_add_int add.commute of_int_of_nat_eq uminus_add_conv_diff)
  moreover have "0 \<le> \<lceil>?x\<rceil>"
    using ceiling_mono [of 0 ?x] by simp
  moreover have "\<lceil>?x\<rceil> \<le> int n"
  proof -
    have "real 1 * real n \<le> real N * real n"
      using assms by (intro mult_right_mono) simp_all
    then have "?x \<le> real n" using assms by (simp add: field_simps)
    then show ?thesis by (simp add: ceiling_le_iff)
  qed
  ultimately show ?thesis by simp
qed

lemma floor_bound:
  assumes "0 < N" "i \<le> N"
  shows "nat \<lfloor>(real n / real N) * real i\<rfloor> \<le> n"
proof -
  have "real i * real n \<le> real N * real n"
    using assms by (intro mult_right_mono) simp_all
  then have "(real n / real N) * real i \<le> real n"
    using assms by (simp add: field_simps)
  then have "\<lfloor>(real n / real N) * real i\<rfloor> \<le> int n" by (simp add: floor_le_iff)
  then show ?thesis by simp
qed

lemma startSentence_0: "startSentence p N 0 = 0"
  by (simp add: startSentence_def)

lemma startSentence_mono: "startSentence p N i \<le> startSentence p N (Suc i)"
proof -
  have "(real (sentenceCount p) / real N) * real i \<le> (real (sentenceCount p) / real N) * real (Suc i)"
    by (intro mult_left_mono) simp_all
  then show ?thesis
    unfolding startSentence_def by (intro nat_mono floor_mono)
qed

lemma startSentence_step:
  "startSentence p N (Suc i) \<le> startSentence p N i + nat \<lceil>real (sentenceCount p) / real N\<rceil>"
  unfolding startSentence_def by (rule floor_step) simp

lemma startSentence_le_count: "0 < N \<Longrightarrow> i \<le> N \<Longrightarrow> startSentence p N i \<le> sentenceCount p"
  unfolding startSentence_def by (rule floor_bound)

lemma startSentence_next_le_end:
  assumes "0 < N" "Suc i \<le> N"
  shows "startSentence p N (Suc i) \<le> endSentence p N i"
  using startSentence_step [of p N i] startSentence_le_count [OF assms]
  by (simp add: endSentence_def)

lemma endSentence_last: "0 < N \<Longrightarrow> endSentence p N (N - 1) = sentenceCount p"
  using floor_last [of N "sentenceCount p"]
  by (simp add: endSentence_def startSentence_def)

lemma sentences_le_count: "length (sentences p) \<le> sentenceCount p"
  by (simp add: sentences_def sentenceCount_def)

lemma covered_upto:
  assumes "0 < N"
  shows "k < N \<Longrightarrow> j < endSentence p N k
           \<Longrightarrow> \<exists>i\<le>k. startSentence p N i \<le> j \<and> j < endSentence p N i"
proof (induction k)
  case 0
  then show ?case by (auto simp: startSentence_0)
next
  case (Suc k)
  show ?case
  proof (cases "startSentence p N (Suc k) \<le> j")
    case True
    with Suc.prems show ?thesis by blast
  next
    case False
    then have "j < endSentence p N k"
      using startSentence_next_le_end [OF assms, of k p] Suc.prems by simp
    with Suc have "\<exists>i\<le>k. startSentence p N i \<le> j \<and> j < endSentence p N i" by simp
    then show ?thesis using le_Suc_eq by blast
  qed
qed

lemma sentence_covered:
  assumes "0 < N" "j < length (sentences p)"
  shows "\<exists>i<N. startSentence p N i \<le> j \<and> j < endSentence p N i
              \<and> shotSentences p N i ! (j - startSentence p N i) = sentences p ! j"
proof -
  have "j < endSentence p N (N - 1)"
    using assms sentences_le_count [of p] endSentence_last [of N p] by simp
  with covered_upto [OF assms(1), of "N - 1" j p] assms(1)
  obtain i where i: "i \<le> N - 1" "startSentence p N i \<le> j" "j < endSentence p N i" by auto
  have "shotSentences p N i ! (j - startSentence p N i) = sentences p ! j"
    using i assms(2) by (simp add: shotSentences_def slice_def)
  with i assms(1) show ?thesis by (intro exI [of _ i]) auto
qed

lemma shotSentences_run:
  "\<exists>pre post. sentences p = pre @ shotSentences p N i @ post
     \<and> length pre = min (startSentence p N i) (length (sentences p))"
proof -
  have "sentences p = take (startSentence p N i) (sentences p)
          @ shotSentences p N i
          @ drop (endSentence p N i - startSentence p N i) (drop (startSentence p N i) (sentences p))"
    unfolding shotSentences_def slice_def by (simp only: append_take_drop_id)
  moreover have "length (take (startSentence p N i) (sentences p))
                   = min (startSentence p N i) (length (sentences p))"
    by (simp add: min.commute)
  ultimately show ?thesis by blast
qed

lemma floor_step_lower:
  fixes x :: real
  assumes "0 \<le> x"
  shows "nat \<lfloor>x * real i\<rfloor> + nat \<lceil>x\<rceil> \<le> nat \<lfloor>x * real (Suc i)\<rfloor> + 1"
proof -
  have "x * real (Suc i) = x * real i + x" by (simp add: algebra_simps)
  moreover have "\<lfloor>x * real i\<rfloor> + \<lfloor>x\<rfloor> \<le> \<lfloor>x * real i + x\<rfloor>" by (rule le_floor_add)
  moreover have "\<lceil>x\<rceil> \<le> \<lfloor>x\<rfloor> + 1" by linarith
  moreover have "0 \<le> \<lfloor>x * real i\<rfloor>" using assms by simp
  moreover have "0 \<le> \<lfloor>x\<rfloor>" using assms by simp
  ultimately show ?thesis by linarith
qed

lemma endSentence_le_next:
  "endSentence p N i \<le> startSentence p N (Suc i) + 1"
proof -
  have "endSentence p N i \<le> startSentence p N i + nat \<lceil>real (sentenceCount p) / real N\<rceil>"
    by (simp add: endSentence_def)
  also have "\<dots> \<le> startSentence p N (Suc i) + 1"
    unfolding startSentence_def by (rule floor_step_lower) simp
  finally show ?thesis .
qed

lemma shotSentences_length:
  "length (shotSentences p N i) \<le> nat \<lceil>real (sentenceCount p) / real N\<rceil>"
proof -
  have "length (shotSentences p N i) \<le> endSentence p N i - startSentence p N i"
    by (simp add: shotSentences_def slice_def)
  also have "\<dots> \<le> nat \<lceil>real (sentenceCount p) / real N\<rceil>"
    by (simp add: endSentence_def)
  finally show ?thesis .
qed

text \<open>
  Claim C2, as the code has it. In every scene that \<open>analyzeStoryBasic\<close> produces, shot
  \<open>i\<close> of \<open>N\<close> is described by \<open>shotDescription\<close>, the sentences \<open>shotSentences\<close> joined by
  a full stop and a space and closed by a full stop. These sentences are a contiguous run
  of the paragraph's sentences, in their order, cut out at the positions \<open>startSentence\<close>
  and \<open>endSentence\<close>; a run has at most \<open>ceil(n/N)\<close> sentences, \<open>n\<close> being the number of
  pieces of the split, empty pieces included, which is at least the number of sentences.
  The first run starts at the first sentence; from one shot to the next the start never
  decreases, and the next run starts where the previous one ends or one position before:
  never later, so that every sentence of the paragraph lies in the run of some shot, and
  never more than one earlier, so that two adjacent runs share at most one sentence. A
  run may be empty.
\<close>

theorem shot_descriptions_cover_sentences:
  assumes "validRandom rnd"
  shows "\<forall>sc \<in> set (st_scenes (analyzeStoryBasic rnd storyText)).
           map as_description (an_shots sc)
             = map (shotDescription (an_description sc) (length (an_shots sc)))
                 [0..<length (an_shots sc)]
         \<and> length (sentences (an_description sc)) \<le> sentenceCount (an_description sc)
         \<and> startSentence (an_description sc) (length (an_shots sc)) 0 = 0
         \<and> (\<forall>i<length (an_shots sc).
               (\<exists>pre post.
                  sentences (an_description sc)
                    = pre @ shotSentences (an_description sc) (length (an_shots sc)) i @ post
                  \<and> length pre
                      = min (startSentence (an_description sc) (length (an_shots sc)) i)
                          (length (sentences (an_description sc))))
             \<and> length (shotSentences (an_description sc) (length (an_shots sc)) i)
                 \<le> nat \<lceil>real (sentenceCount (an_description sc)) / real (length (an_shots sc))\<rceil>)
         \<and> (\<forall>i. Suc i < length (an_shots sc) \<longrightarrow>
               startSentence (an_description sc) (length (an_shots sc)) i
                 \<le> startSentence (an_description sc) (length (an_shots sc)) (Suc i)
             \<and> startSentence (an_description sc) (length (an_shots sc)) (Suc i)
                 \<le> endSentence (an_description sc) (length (an_shots sc)) i
             \<and> endSentence (an_description sc) (length (an_shots sc)) i
                 \<le> startSentence (an_description sc) (length (an_shots sc)) (Suc i) + 1)
         \<and> (\<forall>j<length (sentences (an_description sc)). \<exists>i<length (an_shots sc).
               startSentence (an_description sc) (length (an_shots sc)) i \<le> j
             \<and> j < endSentence (an_description sc) (length (an_shots sc)) i
             \<and> shotSentences (an_description sc) (length (an_shots sc)) i
                 ! (j - startSentence (an_description sc) (length (an_shots sc)) i)
                 = sentences (an_description sc) ! j)"
proof
  fix sc
  assume sc: "sc \<in> set (st_scenes (analyzeStoryBasic rnd storyText))"
  let ?p = "an_description sc" and ?N = "length (an_shots sc)"
  have N: "0 < ?N"
    using scenesLoop_shot_counts [OF assms, of 0 0 "paragraphs storyText"] sc by (auto simp: analyzeStoryBasic_def)
  have d: "map as_description (an_shots sc) = map (shotDescription ?p ?N) [0..<?N]"
    using scenesLoop_shot_descriptions [of rnd 0 0 "paragraphs storyText"] sc
    by (simp add: analyzeStoryBasic_def)
  have l: "length (sentences ?p) \<le> sentenceCount ?p" by (rule sentences_le_count)
  have z: "startSentence ?p ?N 0 = 0" by (rule startSentence_0)
  have r: "\<forall>i<?N. (\<exists>pre post. sentences ?p = pre @ shotSentences ?p ?N i @ post
                      \<and> length pre = min (startSentence ?p ?N i) (length (sentences ?p)))
                 \<and> length (shotSentences ?p ?N i) \<le> nat \<lceil>real (sentenceCount ?p) / real ?N\<rceil>"
    using shotSentences_run shotSentences_length by blast
  have m: "\<forall>i. Suc i < ?N \<longrightarrow> startSentence ?p ?N i \<le> startSentence ?p ?N (Suc i)
             \<and> startSentence ?p ?N (Suc i) \<le> endSentence ?p ?N i
             \<and> endSentence ?p ?N i \<le> startSentence ?p ?N (Suc i) + 1"
    using startSentence_mono [of ?p ?N] startSentence_next_le_end [OF N, of _ ?p]
      endSentence_le_next [of ?p ?N]
    by (simp add: less_imp_le)
  have c: "\<forall>j<length (sentences ?p). \<exists>i<?N. startSentence ?p ?N i \<le> j
             \<and> j < endSentence ?p ?N i
             \<and> shotSentences ?p ?N i ! (j - startSentence ?p ?N i) = sentences ?p ! j"
    using sentence_covered [OF N] by blast
  show "map as_description (an_shots sc) = map (shotDescription ?p ?N) [0..<?N]
      \<and> length (sentences ?p) \<le> sentenceCount ?p
      \<and> startSentence ?p ?N 0 = 0
      \<and> (\<forall>i<?N. (\<exists>pre post. sentences ?p = pre @ shotSentences ?p ?N i @ post
                      \<and> length pre = min (startSentence ?p ?N i) (length (sentences ?p)))
                 \<and> length (shotSentences ?p ?N i) \<le> nat \<lceil>real (sentenceCount ?p) / real ?N\<rceil>)
      \<and> (\<forall>i. Suc i < ?N \<longrightarrow> startSentence ?p ?N i \<le> startSentence ?p ?N (Suc i)
             \<and> startSentence ?p ?N (Suc i) \<le> endSentence ?p ?N i
             \<and> endSentence ?p ?N i \<le> startSentence ?p ?N (Suc i) + 1)
      \<and> (\<forall>j<length (sentences ?p). \<exists>i<?N. startSentence ?p ?N i \<le> j
             \<and> j < endSentence ?p ?N i
             \<and> shotSentences ?p ?N i ! (j - startSentence ?p ?N i) = sentences ?p ! j)"
    using d l z r m c by (intro conjI)
qed

lemma upt2: "[0..<2] = [0, Suc 0]"
  by (simp add: upt_rec)

lemma example_sentences1:
  "sentences (js ''Alice ran. She fell.'') = [js ''Alice ran'', js '' She fell'']"
  "sentenceCount (js ''Alice ran. She fell.'') = 3"
  by (simp_all add: sentences_def sentenceCount_def js_def isSentenceEnd_def trim_def isWhiteSpace_def)

lemma example_sentences2:
  "sentences (js ''Bob laughed.'') = [js ''Bob laughed'']"
  "sentenceCount (js ''Bob laughed.'') = 2"
  by (simp_all add: sentences_def sentenceCount_def js_def isSentenceEnd_def trim_def isWhiteSpace_def)

lemma example_shotSentences1:
  "shotSentences (js ''Alice ran. She fell.'') 2 0 = [js ''Alice ran'', js '' She fell'']"
  "shotSentences (js ''Alice ran. She fell.'') 2 (Suc 0) = [js '' She fell'']"
  by (simp_all add: shotSentences_def example_sentences1 startSentence_def endSentence_def slice_def)

lemma example_shotSentences2:
  "shotSentences (js ''Bob laughed.'') 2 0 = [js ''Bob laughed'']"
  "shotSentences (js ''Bob laughed.'') 2 (Suc 0) = []"
  by (simp_all add: shotSentences_def example_sentences2 startSentence_def endSentence_def slice_def)

lemma example_shotDescription1:
  "shotDescription (js ''Alice ran. She fell.'') 2 0 = js ''Alice ran.  She fell.''"
  "shotDescription (js ''Alice ran. She fell.'') 2 (Suc 0) = js '' She fell.''"
  by (simp_all add: shotDescription_def example_shotSentences1) (simp_all add: js_def)

lemma example_shotDescription2:
  "shotDescription (js ''Bob laughed.'') 2 0 = js ''Bob laughed.''"
  "shotDescription (js ''Bob laughed.'') 2 (Suc 0) = js ''.''"
  by (simp_all add: shotDescription_def example_shotSentences2) (simp_all add: js_def)

lemma example_scenes:
  "st_scenes (analyzeStoryBasic zeroRandom exampleStory)
     = [fst (makeScene zeroRandom 0 0 (js ''Alice ran. She fell.'')),
        fst (makeScene zeroRandom (snd (makeScene zeroRandom 0 0 (js ''Alice ran. She fell.''))) 1
               (js ''Bob laughed.''))]"
  by (simp add: analyzeStoryBasic_def example_paragraphs Let_def case_prod_beta)

lemma example_shot_descriptions:
  "map (map as_description \<circ> an_shots) (st_scenes (analyzeStoryBasic zeroRandom exampleStory))
     = [[js ''Alice ran.  She fell.'', js '' She fell.''], [js ''Bob laughed.'', js ''.'']]"
  using example_shotDescription1 example_shotDescription2
  by (simp add: example_scenes makeScene_shot_descriptions randomIndex_zeroRandom numeral_2_eq_2)

theorem shot_descriptions_cover_sentences_witness:
  "validRandom zeroRandom
   \<and> st_scenes (analyzeStoryBasic zeroRandom exampleStory) \<noteq> []
   \<and> map as_description (an_shots (hd (st_scenes (analyzeStoryBasic zeroRandom exampleStory))))
       = map (shotDescription (js ''Alice ran. She fell.'') 2) [0..<2]
   \<and> sentences (js ''Alice ran. She fell.'') \<noteq> []"
proof -
  let ?sc = "hd (st_scenes (analyzeStoryBasic zeroRandom exampleStory))"
  have sc: "?sc \<in> set (st_scenes (analyzeStoryBasic zeroRandom exampleStory))"
    by (simp add: example_scenes)
  have p: "an_description ?sc = js ''Alice ran. She fell.''"
    by (simp add: example_scenes makeScene_description)
  have n: "length (an_shots ?sc) = 2"
    by (simp add: example_scenes makeScene_shots randomIndex_zeroRandom)
  have "map as_description (an_shots ?sc)
          = map (shotDescription (an_description ?sc) (length (an_shots ?sc)))
              [0..<length (an_shots ?sc)]"
    using shot_descriptions_cover_sentences [OF validRandom_zeroRandom, of exampleStory] sc
    by blast
  then show ?thesis
    unfolding p n by (simp add: validRandom_zeroRandom example_scenes example_sentences1)
qed

text \<open>
  Claim C2 as stated asks that the runs of the shots partition the sentences: laid end to
  end in shot order they are the sentence list of the paragraph, each sentence once. On
  the first paragraph of the example, cut into two shots, the second sentence is in both
  shots.
\<close>

theorem shot_sentences_partition_counterexample:
  "validRandom zeroRandom
   \<and> map (map as_description \<circ> an_shots) (st_scenes (analyzeStoryBasic zeroRandom exampleStory))
       = [[js ''Alice ran.  She fell.'', js '' She fell.''], [js ''Bob laughed.'', js ''.'']]
   \<and> concat (map (shotSentences (js ''Alice ran. She fell.'') 2) [0..<2])
       = [js ''Alice ran'', js '' She fell'', js '' She fell'']
   \<and> sentences (js ''Alice ran. She fell.'') = [js ''Alice ran'', js '' She fell'']
   \<and> concat (map (shotSentences (js ''Alice ran. She fell.'') 2) [0..<2])
       \<noteq> sentences (js ''Alice ran. She fell.'')"
  by (simp add: validRandom_zeroRandom example_shot_descriptions upt2 example_shotSentences1
      example_sentences1)

subsection \<open>Lookup by identifier\<close>

lemma mapThrow_missing:
  "\<exists>i \<in> set ids. m i = None \<Longrightarrow> \<exists>i. mapThrow m err ids = Inl (err i) \<and> i \<in> set ids \<and> m i = None"
proof (induction ids)
  case Nil
  then show ?case by simp
next
  case (Cons a ids)
  show ?case
  proof (cases "m a")
    case None
    then show ?thesis by auto
  next
    case (Some x)
    with Cons.prems have "\<exists>i \<in> set ids. m i = None" by auto
    from Cons.IH [OF this] obtain i where "mapThrow m err ids = Inl (err i)" "i \<in> set ids" "m i = None"
      by blast
    with Some show ?thesis by auto
  qed
qed

lemma mapThrow_present:
  "\<forall>i \<in> set ids. m i \<noteq> None \<Longrightarrow> mapThrow m err ids = Inr (map (\<lambda>i. the (m i)) ids)"
  by (induction ids) auto

lemma mapThrow_Inr_iff:
  "mapThrow m err ids = Inr xs \<Longrightarrow> (\<forall>i \<in> set ids. m i \<noteq> None) \<and> xs = map (\<lambda>i. the (m i)) ids"
  by (induction ids arbitrary: xs) (auto split: option.splits sum.splits)

lemma keyed_None: "map_of (rev (map (\<lambda>x. (key x, x)) xs)) i = None \<longleftrightarrow> i \<notin> set (map key xs)"
  by (simp add: map_of_eq_None_iff image_image)

lemma keyed_Some:
  "map_of (rev (map (\<lambda>x. (key x, x)) xs)) i = Some y \<Longrightarrow> y \<in> set xs \<and> key y = i"
  by (auto dest!: map_of_SomeD)

lemma keyed_distinct:
  "distinct (map key xs) \<Longrightarrow> x \<in> set xs \<Longrightarrow> map_of (rev (map (\<lambda>x. (key x, x)) xs)) (key x) = Some x"
  by (rule map_of_is_SomeI) (auto simp: rev_map [symmetric] comp_def)

lemma keyed_lookup_key:
  assumes "\<forall>i \<in> set ids. i \<in> set (map key xs)"
  shows "map key (map (\<lambda>i. the (map_of (rev (map (\<lambda>x. (key x, x)) xs)) i)) ids) = ids"
proof -
  have "key (the (map_of (rev (map (\<lambda>x. (key x, x)) xs)) i)) = i" if "i \<in> set ids" for i
  proof -
    from that assms have "map_of (rev (map (\<lambda>x. (key x, x)) xs)) i \<noteq> None"
      by (simp add: keyed_None)
    then obtain y where "map_of (rev (map (\<lambda>x. (key x, x)) xs)) i = Some y" by auto
    then show ?thesis using keyed_Some [of key xs i y] by simp
  qed
  then show ?thesis by (simp add: map_idI comp_def)
qed

lemma keyed_lookup_subset:
  assumes "\<forall>i \<in> set ids. i \<in> set (map key xs)"
  shows "set (map (\<lambda>i. the (map_of (rev (map (\<lambda>x. (key x, x)) xs)) i)) ids) \<subseteq> set xs"
proof
  fix y assume "y \<in> set (map (\<lambda>i. the (map_of (rev (map (\<lambda>x. (key x, x)) xs)) i)) ids)"
  then obtain i where i: "i \<in> set ids" "y = the (map_of (rev (map (\<lambda>x. (key x, x)) xs)) i)" by auto
  with assms have "map_of (rev (map (\<lambda>x. (key x, x)) xs)) i \<noteq> None" by (simp add: keyed_None)
  then obtain z where "map_of (rev (map (\<lambda>x. (key x, x)) xs)) i = Some z" by auto
  with i keyed_Some [of key xs i z] show "y \<in> set xs" by simp
qed

lemma keyed_lookup_mset:
  assumes "distinct (map key xs)" "mset ids = mset (map key xs)"
  shows "mset (map (\<lambda>i. the (map_of (rev (map (\<lambda>x. (key x, x)) xs)) i)) ids) = mset xs"
proof -
  let ?f = "\<lambda>i. the (map_of (rev (map (\<lambda>x. (key x, x)) xs)) i)"
  have "mset (map ?f ids) = image_mset ?f (mset ids)" by simp
  also have "\<dots> = image_mset ?f (mset (map key xs))" by (simp only: assms(2))
  also have "\<dots> = mset (map ?f (map key xs))" by (simp only: mset_map)
  also have "map ?f (map key xs) = xs"
    using keyed_distinct [OF assms(1)] by (simp add: map_idI)
  finally show ?thesis .
qed

subsection \<open>Reordering\<close>

lemma storyboardData_set [simp]:
  "storyboardData (setProjectSaved b (setStoryboardData (Some d) st))
     = Some (if sb_annotations d = None then d\<lparr> sb_annotations := Some [] \<rparr> else d)"
  by (simp add: setProjectSaved_def setStoryboardData_def)

lemma reorderScenes_foreign:
  assumes "storyboardData st = Some sb"
    and "\<exists>i \<in> set sceneIds. i \<notin> set (map scene_id (sb_scenes sb))"
  shows "\<exists>i. reorderScenes sceneIds st = Inl (SceneNotFound i)
            \<and> i \<in> set sceneIds \<and> i \<notin> set (map scene_id (sb_scenes sb))"
proof -
  from assms(2) have "\<exists>i \<in> set sceneIds. sceneMap (sb_scenes sb) i = None"
    unfolding sceneMap_def keyed_None by simp
  from mapThrow_missing [OF this, of SceneNotFound]
  obtain i where "mapThrow (sceneMap (sb_scenes sb)) SceneNotFound sceneIds = Inl (SceneNotFound i)"
    "i \<in> set sceneIds" "sceneMap (sb_scenes sb) i = None" by blast
  then show ?thesis
    using assms(1) unfolding sceneMap_def keyed_None by (auto simp: reorderScenes_def sceneMap_def)
qed

lemma reorderShots_foreign:
  assumes "storyboardData st = Some sb"
    and "find (\<lambda>s. scene_id s = sceneId) (sb_scenes sb) = Some scene"
    and "\<exists>i \<in> set shotIds. i \<notin> set (map shot_id (scene_shots scene))"
  shows "\<exists>i. reorderShots sceneId shotIds st = Inl (ShotNotFound i)
            \<and> i \<in> set shotIds \<and> i \<notin> set (map shot_id (scene_shots scene))"
proof -
  from assms(3) have "\<exists>i \<in> set shotIds. shotMap (scene_shots scene) i = None"
    unfolding shotMap_def keyed_None by simp
  from mapThrow_missing [OF this, of ShotNotFound]
  obtain i where "mapThrow (shotMap (scene_shots scene)) ShotNotFound shotIds = Inl (ShotNotFound i)"
    "i \<in> set shotIds" "shotMap (scene_shots scene) i = None" by blast
  then show ?thesis
    using assms(1,2) unfolding shotMap_def keyed_None by (auto simp: reorderShots_def shotMap_def)
qed

lemma reorderScenes_permutation:
  assumes "storyboardData st = Some sb"
    and "mset sceneIds = mset (map scene_id (sb_scenes sb))"
  shows "\<exists>st' sb'. reorderScenes sceneIds st = Inr st' \<and> storyboardData st' = Some sb'
           \<and> map scene_id (sb_scenes sb') = sceneIds
           \<and> set (map scene_id (sb_scenes sb')) = set (map scene_id (sb_scenes sb))
           \<and> set (sb_scenes sb') \<subseteq> set (sb_scenes sb)
           \<and> (distinct (map scene_id (sb_scenes sb)) \<longrightarrow> mset (sb_scenes sb') = mset (sb_scenes sb))"
proof -
  let ?look = "map (\<lambda>i. the (sceneMap (sb_scenes sb) i)) sceneIds"
  have ids: "set sceneIds = set (map scene_id (sb_scenes sb))"
    using assms(2) by (rule mset_eq_setD)
  then have all: "\<forall>i \<in> set sceneIds. i \<in> set (map scene_id (sb_scenes sb))" by simp
  then have "\<forall>i \<in> set sceneIds. sceneMap (sb_scenes sb) i \<noteq> None"
    unfolding sceneMap_def keyed_None by simp
  then have m: "mapThrow (sceneMap (sb_scenes sb)) SceneNotFound sceneIds = Inr ?look"
    by (rule mapThrow_present)
  let ?sb = "sb\<lparr> sb_scenes := ?look \<rparr>"
  let ?sb' = "if sb_annotations ?sb = None then ?sb\<lparr> sb_annotations := Some [] \<rparr> else ?sb"
  have r: "reorderScenes sceneIds st = Inr (setProjectSaved False (setStoryboardData (Some ?sb) st))"
    using assms(1) m by (simp add: reorderScenes_def)
  have sc: "sb_scenes ?sb' = ?look" by simp
  have k: "map scene_id ?look = sceneIds"
    unfolding sceneMap_def using all by (rule keyed_lookup_key)
  have s: "set ?look \<subseteq> set (sb_scenes sb)"
    unfolding sceneMap_def using keyed_lookup_subset [OF all] by simp
  have d: "distinct (map scene_id (sb_scenes sb)) \<longrightarrow> mset ?look = mset (sb_scenes sb)"
    unfolding sceneMap_def using keyed_lookup_mset [OF _ assms(2)] by blast
  show ?thesis
    apply (rule exI [of _ "setProjectSaved False (setStoryboardData (Some ?sb) st)"])
    apply (rule exI [of _ ?sb'])
    using r k s d ids unfolding sc by (simp del: set_map)
qed

lemma reorderShots_result:
  assumes "storyboardData st = Some sb"
    and "find (\<lambda>s. scene_id s = sceneId) (sb_scenes sb) = Some scene"
    and "\<forall>i \<in> set shotIds. i \<in> set (map shot_id (scene_shots scene))"
  shows "reorderShots sceneId shotIds st
           = Inr (setProjectSaved False
                   (setStoryboardData
                      (Some (sb\<lparr> sb_scenes :=
                          map (\<lambda>s. if scene_id s = sceneId
                                    then s\<lparr> scene_shots :=
                                           map (\<lambda>i. the (shotMap (scene_shots scene) i)) shotIds \<rparr>
                                    else s)
                              (sb_scenes sb) \<rparr>))
                      st))"
proof -
  from assms(3) have "\<forall>i \<in> set shotIds. shotMap (scene_shots scene) i \<noteq> None"
    unfolding shotMap_def keyed_None by simp
  then have "mapThrow (shotMap (scene_shots scene)) ShotNotFound shotIds
               = Inr (map (\<lambda>i. the (shotMap (scene_shots scene) i)) shotIds)"
    by (rule mapThrow_present)
  then show ?thesis using assms(1,2) by (simp add: reorderShots_def)
qed

lemma reorderShots_permutation:
  assumes "storyboardData st = Some sb"
    and "find (\<lambda>s. scene_id s = sceneId) (sb_scenes sb) = Some scene"
    and "mset shotIds = mset (map shot_id (scene_shots scene))"
  shows "\<exists>st' sb'. reorderShots sceneId shotIds st = Inr st' \<and> storyboardData st' = Some sb'
           \<and> (\<exists>s' \<in> set (sb_scenes sb'). scene_id s' = sceneId)
           \<and> (\<forall>s' \<in> set (sb_scenes sb'). scene_id s' = sceneId \<longrightarrow>
                 map shot_id (scene_shots s') = shotIds
               \<and> set (map shot_id (scene_shots s')) = set (map shot_id (scene_shots scene))
               \<and> set (scene_shots s') \<subseteq> set (scene_shots scene)
               \<and> (distinct (map shot_id (scene_shots scene)) \<longrightarrow>
                     mset (scene_shots s') = mset (scene_shots scene)))"
proof -
  define look where "look = map (\<lambda>i. the (shotMap (scene_shots scene) i)) shotIds"
  define scenes where
    "scenes = map (\<lambda>s. if scene_id s = sceneId then s\<lparr> scene_shots := look \<rparr> else s) (sb_scenes sb)"
  define st' where
    "st' = setProjectSaved False (setStoryboardData (Some (sb\<lparr> sb_scenes := scenes \<rparr>)) st)"
  have ids: "set shotIds = set (map shot_id (scene_shots scene))"
    using assms(3) by (rule mset_eq_setD)
  then have all: "\<forall>i \<in> set shotIds. i \<in> set (map shot_id (scene_shots scene))" by simp
  have r: "reorderShots sceneId shotIds st = Inr st'"
    unfolding st'_def scenes_def look_def using reorderShots_result [OF assms(1,2) all] .
  obtain sb' where sb': "storyboardData st' = Some sb'" "sb_scenes sb' = scenes"
    unfolding st'_def by (cases "sb_annotations sb") (simp_all add: storyboardData_set)
  have k: "map shot_id look = shotIds"
    unfolding look_def shotMap_def using all by (rule keyed_lookup_key)
  have s: "set look \<subseteq> set (scene_shots scene)"
    unfolding look_def shotMap_def using keyed_lookup_subset [OF all] by simp
  have d: "distinct (map shot_id (scene_shots scene)) \<longrightarrow> mset look = mset (scene_shots scene)"
    unfolding look_def shotMap_def using keyed_lookup_mset [OF _ assms(3)] by blast
  have "scene \<in> set (sb_scenes sb)" "scene_id scene = sceneId"
    using assms(2) by (auto simp: find_Some_iff)
  then have "scene\<lparr> scene_shots := look \<rparr> \<in> set scenes"
    unfolding scenes_def by (force simp: image_iff)
  then have e: "\<exists>s' \<in> set scenes. scene_id s' = sceneId"
    using \<open>scene_id scene = sceneId\<close> by (intro bexI [of _ "scene\<lparr> scene_shots := look \<rparr>"]) simp_all
  have a: "scene_shots s' = look" if "s' \<in> set scenes" "scene_id s' = sceneId" for s'
  proof -
    from that(1) obtain s where "s \<in> set (sb_scenes sb)"
      "s' = (if scene_id s = sceneId then s\<lparr> scene_shots := look \<rparr> else s)"
      unfolding scenes_def by auto
    with that(2) show ?thesis by (cases "scene_id s = sceneId") simp_all
  qed
  have "\<forall>s' \<in> set scenes. scene_id s' = sceneId \<longrightarrow>
                 map shot_id (scene_shots s') = shotIds
               \<and> set (map shot_id (scene_shots s')) = set (map shot_id (scene_shots scene))
               \<and> set (scene_shots s') \<subseteq> set (scene_shots scene)
               \<and> (distinct (map shot_id (scene_shots scene)) \<longrightarrow>
                     mset (scene_shots s') = mset (scene_shots scene))"
    using a k s d ids by (simp del: set_map)
  with r sb' e show ?thesis by blast
qed


lemma example_state_facts:
  "storyboardData exampleState = Some exampleStoryboard"
  "sb_scenes exampleStoryboard = [exampleScene1, exampleScene2]"
  "sb_annotations exampleStoryboard = Some []"
  "scene_id exampleScene1 = js ''s1''" "scene_id exampleScene2 = js ''s2''"
  "scene_shots exampleScene1 = [exampleShotA, exampleShotB]"
  "scene_shots exampleScene2 = [exampleShotC]"
  "shot_id exampleShotA = js ''a''" "shot_id exampleShotB = js ''b''" "shot_id exampleShotC = js ''c''"
  "shot_sceneId exampleShotA = js ''s1''" "shot_sceneId exampleShotB = js ''s1''"
  "shot_sceneId exampleShotC = js ''s2''"
  by (simp_all add: exampleState_def exampleStoryboard_def exampleScene1_def exampleScene2_def
      exampleShotA_def exampleShotB_def exampleShotC_def)

lemma example_ids_differ:
  "js ''s1'' \<noteq> js ''s2''" "js ''s2'' \<noteq> js ''s1''" "js ''zz'' \<noteq> js ''s1''" "js ''zz'' \<noteq> js ''s2''"
  "js ''a'' \<noteq> js ''b''" "js ''b'' \<noteq> js ''a''" "js ''zz'' \<noteq> js ''a''" "js ''zz'' \<noteq> js ''b''"
  "js ''s1'' \<noteq> js ''zz''" "js ''s2'' \<noteq> js ''zz''" "js ''a'' \<noteq> js ''zz''" "js ''b'' \<noteq> js ''zz''"
  by (simp_all add: js_def)


subsection \<open>What a reordering of shots leaves alone\<close>

text \<open>
  Claim C10. When \<open>reorderShots(sceneId, shotIds)\<close> returns, the storyboard differs from
  the one before the call in its scenes only, the provider's state in the storyboard and
  the saved flag only; the storyboard has as many scenes as before, in the same places;
  a scene whose identifier is not \<open>sceneId\<close> is the scene it was, and a scene whose
  identifier is \<open>sceneId\<close> differs in its shots only. The annotations are those of a
  storyboard that has passed through \<open>setStoryboardData\<close>, as every storyboard of the
  provider has.
\<close>

theorem reorderShots_frame:
  assumes "storyboardData st = Some sb"
    and "sb_annotations sb \<noteq> None"
    and "reorderShots sceneId shotIds st = Inr st'"
  shows "\<exists>sb'. storyboardData st' = Some sb'
           \<and> st' = st\<lparr> storyboardData := Some sb', projectSaved := projectSaved st' \<rparr>
           \<and> sb' = sb\<lparr> sb_scenes := sb_scenes sb' \<rparr>
           \<and> length (sb_scenes sb') = length (sb_scenes sb)
           \<and> (\<forall>k<length (sb_scenes sb).
                 (scene_id (sb_scenes sb ! k) \<noteq> sceneId \<longrightarrow> sb_scenes sb' ! k = sb_scenes sb ! k)
               \<and> sb_scenes sb' ! k
                   = (sb_scenes sb ! k)\<lparr> scene_shots := scene_shots (sb_scenes sb' ! k) \<rparr>)"
proof (cases "find (\<lambda>s. scene_id s = sceneId) (sb_scenes sb)")
  case None
  with assms have "st' = st" by (simp add: reorderShots_def)
  with assms(1) show ?thesis by (intro exI [of _ sb]) simp
next
  case (Some scene)
  from assms(3) assms(1) Some obtain reorderedShots where
    m: "mapThrow (shotMap (scene_shots scene)) ShotNotFound shotIds = Inr reorderedShots"
    by (cases "mapThrow (shotMap (scene_shots scene)) ShotNotFound shotIds")
       (simp_all add: reorderShots_def)
  define scenes where
    "scenes = map (\<lambda>s. if scene_id s = sceneId then s\<lparr> scene_shots := reorderedShots \<rparr> else s)
                (sb_scenes sb)"
  have st': "st' = setProjectSaved False (setStoryboardData (Some (sb\<lparr> sb_scenes := scenes \<rparr>)) st)"
    using assms(1,3) Some m by (simp add: reorderShots_def scenes_def)
  have sd: "storyboardData st' = Some (sb\<lparr> sb_scenes := scenes \<rparr>)"
    using assms(2) unfolding st' by (simp add: setProjectSaved_def setStoryboardData_def)
  have fr: "st' = st\<lparr> storyboardData := Some (sb\<lparr> sb_scenes := scenes \<rparr>),
                       projectSaved := projectSaved st' \<rparr>"
    using assms(2) unfolding st' by (simp add: setProjectSaved_def setStoryboardData_def)
  have el: "(scene_id (sb_scenes sb ! k) \<noteq> sceneId \<longrightarrow> scenes ! k = sb_scenes sb ! k)
          \<and> scenes ! k = (sb_scenes sb ! k)\<lparr> scene_shots := scene_shots (scenes ! k) \<rparr>"
    if "k < length (sb_scenes sb)" for k
    using that by (simp add: scenes_def)
  show ?thesis
    apply (rule exI [of _ "sb\<lparr> sb_scenes := scenes \<rparr>"])
    using sd fr el by (simp add: scenes_def)
qed

theorem reorderShots_frame_witness:
  "storyboardData exampleState = Some exampleStoryboard
   \<and> sb_annotations exampleStoryboard \<noteq> None
   \<and> (\<exists>st'. reorderShots (js ''s1'') [js ''b'', js ''a''] exampleState = Inr st'
         \<and> (\<exists>sb'. storyboardData st' = Some sb'
               \<and> sb' = exampleStoryboard\<lparr> sb_scenes := sb_scenes sb' \<rparr>
               \<and> length (sb_scenes sb') = 2
               \<and> sb_scenes sb' ! 1 = exampleScene2))"
proof -
  have h0: "storyboardData exampleState = Some exampleStoryboard"
    and h1: "sb_annotations exampleStoryboard \<noteq> None"
    by (simp_all add: example_state_facts)
  have "\<forall>i \<in> set [js ''b'', js ''a'']. i \<in> set (map shot_id (scene_shots exampleScene1))"
    by (simp add: example_state_facts)
  from reorderShots_result [OF h0 _ this, of "js ''s1''"]
  obtain st' where r: "reorderShots (js ''s1'') [js ''b'', js ''a''] exampleState = Inr st'"
    by (simp add: example_state_facts)
  from reorderShots_frame [OF h0 h1 r] obtain sb' where
    s: "storyboardData st' = Some sb'" "sb' = exampleStoryboard\<lparr> sb_scenes := sb_scenes sb' \<rparr>"
       "length (sb_scenes sb') = length (sb_scenes exampleStoryboard)"
    and a: "\<forall>k<length (sb_scenes exampleStoryboard).
                 (scene_id (sb_scenes exampleStoryboard ! k) \<noteq> js ''s1''
                    \<longrightarrow> sb_scenes sb' ! k = sb_scenes exampleStoryboard ! k)
               \<and> sb_scenes sb' ! k
                   = (sb_scenes exampleStoryboard ! k)\<lparr> scene_shots := scene_shots (sb_scenes sb' ! k) \<rparr>"
    by (elim exE conjE)
  have l: "length (sb_scenes sb') = 2" using s(3) by (simp add: example_state_facts)
  have "1 < length (sb_scenes exampleStoryboard)" by (simp add: example_state_facts)
  with a have "scene_id (sb_scenes exampleStoryboard ! 1) \<noteq> js ''s1''
                    \<longrightarrow> sb_scenes sb' ! 1 = sb_scenes exampleStoryboard ! 1"
    by simp
  then have e: "sb_scenes sb' ! 1 = exampleScene2"
    by (simp add: example_state_facts example_ids_differ)
  show ?thesis
    by (intro conjI h0 h1 exI [of _ st'] r exI [of _ sb'] s(1,2) l e)
qed

subsection \<open>The invariant that a shot names its scene\<close>

lemma sceneIdInvariant_iff:
  "sceneIdInvariant sb \<longleftrightarrow>
     (\<forall>scene \<in> set (sb_scenes sb). \<forall>shot \<in> set (scene_shots scene).
        shot_sceneId shot = scene_id scene)"
  by (simp add: sceneIdInvariant_def list_all_iff)

lemma stateInvariant_set:
  "stateInvariant (setProjectSaved b (setStoryboardData (Some d) st)) \<longleftrightarrow> sceneIdInvariant d"
  by (simp add: stateInvariant_def sceneIdInvariant_def)

lemma stateInvariant_D:
  "stateInvariant st \<Longrightarrow> storyboardData st = Some sb \<Longrightarrow> scene \<in> set (sb_scenes sb)
     \<Longrightarrow> shot \<in> set (scene_shots scene) \<Longrightarrow> shot_sceneId shot = scene_id scene"
  by (simp add: stateInvariant_def sceneIdInvariant_iff)

lemma find_SomeD: "find P xs = Some x \<Longrightarrow> x \<in> set xs \<and> P x"
  by (auto simp: find_Some_iff)

lemma set_spliceInsert: "set (spliceInsert k x xs) = insert x (set xs)"
proof -
  have "set (take n xs) \<union> set (drop n xs) = set xs" for n
    by (metis append_take_drop_id set_append)
  then show ?thesis by (auto simp: spliceInsert_def Let_def)
qed

lemma updateShot_invariant:
  assumes "stateInvariant st" "p_sceneId updates = None \<or> p_sceneId updates = Some sceneId"
  shows "stateInvariant (updateShot sceneId shotId updates st)"
proof (cases "storyboardData st")
  case None
  then show ?thesis using assms by (simp add: updateShot_def)
next
  case (Some sb)
  have s: "shot_sceneId (spreadShot shot updates) = scene_id scene"
    if "scene \<in> set (sb_scenes sb)" "shot \<in> set (scene_shots scene)" "scene_id scene = sceneId"
    for scene shot
    using stateInvariant_D [OF assms(1) Some that(1,2)] that(3) assms(2)
    by (auto simp: spreadShot_def override_def)
  show ?thesis
    using Some stateInvariant_D [OF assms(1) Some] s
    by (auto simp: updateShot_def stateInvariant_set sceneIdInvariant_iff)
qed

lemma addShot_invariant:
  assumes "stateInvariant st" "p_sceneId shot = None \<or> p_sceneId shot = Some sceneId"
  shows "stateInvariant (addShot uuid sceneId shot st)"
proof (cases "storyboardData st")
  case None
  then show ?thesis using assms by (simp add: addShot_def)
next
  case (Some sb)
  show ?thesis
    using Some stateInvariant_D [OF assms(1) Some] assms(2)
    by (auto simp: addShot_def Let_def stateInvariant_set sceneIdInvariant_iff spreadShot_def
        override_def)
qed

lemma addScene_invariant:
  assumes "stateInvariant st"
    and "\<forall>shot \<in> set (override [] (ps_shots scene)). shot_sceneId shot = orElse (ps_id scene) uuid"
  shows "stateInvariant (addScene uuid scene st)"
proof (cases "storyboardData st")
  case None
  then show ?thesis using assms by (simp add: addScene_def)
next
  case (Some sb)
  show ?thesis
    using Some stateInvariant_D [OF assms(1) Some] assms(2)
    by (auto simp: addScene_def Let_def stateInvariant_set sceneIdInvariant_iff)
qed

lemma duplicateShot_invariant:
  assumes "stateInvariant st"
  shows "stateInvariant (duplicateShot uuid sceneId shotId st)"
proof (cases "storyboardData st")
  case None
  then show ?thesis using assms by (simp add: duplicateShot_def)
next
  case (Some sb)
  show ?thesis
  proof (cases "find (\<lambda>s. scene_id s = sceneId) (sb_scenes sb)")
    case None
    with Some assms show ?thesis by (simp add: duplicateShot_def)
  next
    case scene: (Some scene)
    show ?thesis
    proof (cases "find (\<lambda>s. shot_id s = shotId) (scene_shots scene)")
      case None
      with Some scene assms show ?thesis by (simp add: duplicateShot_def)
    next
      case shot: (Some shotToDuplicate)
      have "scene \<in> set (sb_scenes sb)" "scene_id scene = sceneId"
        using find_SomeD [OF scene] by simp_all
      moreover have "shotToDuplicate \<in> set (scene_shots scene)"
        using find_SomeD [OF shot] by simp
      ultimately have "shot_sceneId shotToDuplicate = sceneId"
        using stateInvariant_D [OF assms Some] by auto
      then show ?thesis
        using Some scene shot stateInvariant_D [OF assms Some]
        by (auto simp: duplicateShot_def Let_def stateInvariant_set sceneIdInvariant_iff)
    qed
  qed
qed

lemma duplicateScene_invariant:
  assumes "stateInvariant st"
  shows "stateInvariant (duplicateScene uuids sceneId st)"
proof (cases "storyboardData st")
  case None
  then show ?thesis using assms by (simp add: duplicateScene_def)
next
  case (Some sb)
  show ?thesis
  proof (cases "find (\<lambda>s. scene_id s = sceneId) (sb_scenes sb)")
    case None
    with Some assms show ?thesis by (simp add: duplicateScene_def)
  next
    case scene: (Some scene)
    show ?thesis
      using Some scene stateInvariant_D [OF assms Some]
      by (auto simp: duplicateScene_def Let_def stateInvariant_set sceneIdInvariant_iff)
  qed
qed

lemma moveShot_invariant:
  assumes "stateInvariant st"
  shows "stateInvariant (moveShot sourceSceneId shotId targetSceneId targetIndex st)"
proof (cases "storyboardData st")
  case None
  then show ?thesis using assms by (simp add: moveShot_def)
next
  case (Some sb)
  show ?thesis
  proof (cases "find (\<lambda>s. scene_id s = sourceSceneId) (sb_scenes sb)")
    case None
    with Some assms show ?thesis by (simp add: moveShot_def)
  next
    case src: (Some sourceScene)
    show ?thesis
    proof (cases "find (\<lambda>s. scene_id s = targetSceneId) (sb_scenes sb)")
      case None
      with Some src assms show ?thesis by (simp add: moveShot_def)
    next
      case tgt: (Some targetScene)
      show ?thesis
      proof (cases "find (\<lambda>s. shot_id s = shotId) (scene_shots sourceScene)")
        case None
        with Some src tgt assms show ?thesis by (simp add: moveShot_def)
      next
        case shot: (Some shotToMove)
        have s: "sourceScene \<in> set (sb_scenes sb)" "scene_id sourceScene = sourceSceneId"
          using find_SomeD [OF src] by simp_all
        have t: "targetScene \<in> set (sb_scenes sb)" "scene_id targetScene = targetSceneId"
          using find_SomeD [OF tgt] by simp_all
        have si: "\<forall>x \<in> set (scene_shots sourceScene). shot_sceneId x = sourceSceneId"
          using stateInvariant_D [OF assms Some s(1)] s(2) by simp
        have ti: "\<forall>x \<in> set (scene_shots targetScene). shot_sceneId x = targetSceneId"
          using stateInvariant_D [OF assms Some t(1)] t(2) by simp
        show ?thesis
          using Some src tgt shot s t si ti stateInvariant_D [OF assms Some]
          by (cases targetIndex)
             (auto simp: moveShot_def Let_def stateInvariant_set sceneIdInvariant_iff
                set_spliceInsert)
      qed
    qed
  qed
qed

text \<open>
  Claim C8, as the code has it. \<open>moveShot\<close>, \<open>duplicateShot\<close> and \<open>duplicateScene\<close> keep
  the invariant that every shot names the scene that holds it. \<open>addShot\<close> and
  \<open>updateShot\<close> keep it when the partial shot they are given has no \<open>sceneId\<close> or the
  \<open>sceneId\<close> of the call, since the spread of the partial shot comes last; \<open>addScene\<close>
  keeps it when the shots it is given name the scene that is added.
\<close>

theorem shot_operations_keep_sceneId:
  assumes "stateInvariant st"
  shows "stateInvariant (moveShot sourceSceneId shotId targetSceneId targetIndex st)
       \<and> stateInvariant (duplicateShot uuid sceneId shotId st)
       \<and> stateInvariant (duplicateScene uuids sceneId st)
       \<and> (p_sceneId shot = None \<or> p_sceneId shot = Some sceneId
            \<longrightarrow> stateInvariant (addShot uuid sceneId shot st))
       \<and> (p_sceneId updates = None \<or> p_sceneId updates = Some sceneId
            \<longrightarrow> stateInvariant (updateShot sceneId shotId updates st))
       \<and> ((\<forall>s \<in> set (override [] (ps_shots scene)). shot_sceneId s = orElse (ps_id scene) uuid)
            \<longrightarrow> stateInvariant (addScene uuid scene st))"
  using moveShot_invariant [OF assms] duplicateShot_invariant [OF assms]
    duplicateScene_invariant [OF assms] addShot_invariant [OF assms]
    updateShot_invariant [OF assms] addScene_invariant [OF assms]
  by (intro conjI impI) assumption+

lemma stateInvariant_exampleState: "stateInvariant exampleState"
  by (simp add: stateInvariant_def sceneIdInvariant_def example_state_facts)

theorem shot_operations_keep_sceneId_witness:
  "stateInvariant exampleState
   \<and> p_sceneId noUpdates = None
   \<and> (\<exists>s. s \<in> set (override [] (ps_shots exampleNewScene)))
   \<and> stateInvariant (moveShot (js ''s1'') (js ''a'') (js ''s2'') None exampleState)
   \<and> stateInvariant (duplicateShot (js ''u0'') (js ''s1'') (js ''a'') exampleState)
   \<and> stateInvariant (duplicateScene exampleUuids (js ''s1'') exampleState)
   \<and> stateInvariant (addShot (js ''u0'') (js ''s1'') noUpdates exampleState)
   \<and> stateInvariant (updateShot (js ''s1'') (js ''a'') noUpdates exampleState)
   \<and> stateInvariant (addScene (js ''u0'') exampleNewScene exampleState)"
proof -
  have n: "p_sceneId noUpdates = None" by (simp add: noUpdates_def)
  have e: "\<exists>s. s \<in> set (override [] (ps_shots exampleNewScene))"
    by (simp add: exampleNewScene_def override_def)
  have a: "\<forall>s \<in> set (override [] (ps_shots exampleNewScene)).
             shot_sceneId s = orElse (ps_id exampleNewScene) (js ''u0'')"
    by (simp add: exampleNewScene_def override_def orElse_def js_def)
  note t = shot_operations_keep_sceneId [OF stateInvariant_exampleState,
      of "js ''s1''" "js ''a''" "js ''s2''" None "js ''u0''" "js ''s1''" exampleUuids
         noUpdates noUpdates exampleNewScene]
  show ?thesis
    using t n e a stateInvariant_exampleState by simp
qed

text \<open>
  Claim C8 as stated fails for \<open>updateShot\<close>, \<open>addShot\<close> and \<open>addScene\<close>: a partial shot
  with another \<open>sceneId\<close>, or a new scene given the shot of another scene, breaks the
  invariant.
\<close>

theorem shot_operations_break_sceneId_counterexample:
  "stateInvariant exampleState
   \<and> \<not> stateInvariant
         (updateShot (js ''s1'') (js ''a'') (noUpdates\<lparr> p_sceneId := Some (js ''s2'') \<rparr>) exampleState)
   \<and> \<not> stateInvariant
         (addShot (js ''u0'') (js ''s1'') (noUpdates\<lparr> p_sceneId := Some (js ''s2'') \<rparr>) exampleState)
   \<and> \<not> stateInvariant
         (addScene (js ''u0'') (exampleNewScene\<lparr> ps_shots := Some [exampleShotA] \<rparr>) exampleState)"
proof -
  have 1: "\<not> stateInvariant
         (updateShot (js ''s1'') (js ''a'') (noUpdates\<lparr> p_sceneId := Some (js ''s2'') \<rparr>) exampleState)"
    by (simp add: updateShot_def stateInvariant_set sceneIdInvariant_def example_state_facts
        example_ids_differ spreadShot_def override_def noUpdates_def)
  have 2: "\<not> stateInvariant
         (addShot (js ''u0'') (js ''s1'') (noUpdates\<lparr> p_sceneId := Some (js ''s2'') \<rparr>) exampleState)"
    by (simp add: addShot_def stateInvariant_set sceneIdInvariant_def example_state_facts
        example_ids_differ spreadShot_def override_def noUpdates_def Let_def)
  have 3: "\<not> stateInvariant
         (addScene (js ''u0'') (exampleNewScene\<lparr> ps_shots := Some [exampleShotA] \<rparr>) exampleState)"
    by (simp add: addScene_def stateInvariant_set sceneIdInvariant_def example_state_facts
        example_ids_differ override_def orElse_def exampleNewScene_def Let_def)
       (simp add: js_def)
  show ?thesis by (intro conjI stateInvariant_exampleState 1 2 3)
qed

subsection \<open>Saving and loading\<close>

lemma loadProject_stored:
  assumes "localStorage (storageKey ident) = Some e" "parse e = Some blob"
  shows "loadProject parse ident st0 localStorage
           = \<lparr> storyInput = pb_storyInput blob,
               storyboardData =
                 (case pb_storyboardData blob of
                    None \<Rightarrow> None
                  | Some d \<Rightarrow> Some (if sb_annotations d = None
                                     then d\<lparr> sb_annotations := Some [] \<rparr> else d)),
               styleSettings = pb_styleSettings blob,
               characters = pb_characters blob,
               characterDescriptions = pb_characterDescriptions blob,
               versionHistory = override [] (pb_versionHistory blob),
               currentVersionIndex = override 0 (pb_currentVersionIndex blob),
               savedTemplateStyles = override [] (pb_savedTemplateStyles blob),
               projectSaved = True \<rparr>"
  using assms
  by (simp add: loadProject_def setProjectSaved_def setStoryboardData_def Let_def
      split: option.splits)



subsection \<open>Deleting the last shot or the last scene\<close>

lemma confirmDeleteItem_closed:
  "confirmDelete v = None \<Longrightarrow> fst (confirmDeleteItem st v) = st"
  by (simp add: confirmDeleteItem_def split: option.splits)

text \<open>
  The viewer with the guards refuses: with the dialog closed, a request to delete the
  only shot of a scene, or the only scene, opens no dialog, and the provider's state
  stays as it is.
\<close>

lemma guarded_viewer_refuses:
  assumes "storyboardData st = Some sb" "confirmDelete v = None"
  shows "(truthy sceneId \<and> truthy shotId
            \<and> find (\<lambda>s. Some (scene_id s) = sceneId) (sb_scenes sb) = Some scene
            \<and> length (scene_shots scene) \<le> 1
          \<longrightarrow> handleDeleteShot sb sceneId shotId v = Inr v
              \<and> deleteShotConfirmed sceneId shotId st v = st)
       \<and> (nth_opt (sb_scenes sb) (currentShot_sceneIndex v) = Some scene
            \<and> length (scene_shots scene) \<le> 1
          \<longrightarrow> handleDeleteShot sb None None v = Inr v
              \<and> deleteShotConfirmed None None st v = st)
       \<and> (length (sb_scenes sb) \<le> 1
          \<longrightarrow> handleDeleteScene sb sceneId v = Inr v
              \<and> deleteSceneConfirmed sceneId st v = st)"
proof (intro conjI impI)
  assume a: "truthy sceneId \<and> truthy shotId
            \<and> find (\<lambda>s. Some (scene_id s) = sceneId) (sb_scenes sb) = Some scene
            \<and> length (scene_shots scene) \<le> 1"
  then show h: "handleDeleteShot sb sceneId shotId v = Inr v"
    by (simp add: handleDeleteShot_def)
  show "deleteShotConfirmed sceneId shotId st v = st"
    using assms h by (simp add: deleteShotConfirmed_def confirmDeleteItem_closed)
next
  assume a: "nth_opt (sb_scenes sb) (currentShot_sceneIndex v) = Some scene
            \<and> length (scene_shots scene) \<le> 1"
  then show h: "handleDeleteShot sb None None v = Inr v"
    by (simp add: handleDeleteShot_def truthy_def deleteCurrentShot_def)
  show "deleteShotConfirmed None None st v = st"
    using assms h by (simp add: deleteShotConfirmed_def confirmDeleteItem_closed)
next
  assume a: "length (sb_scenes sb) \<le> 1"
  then show h: "handleDeleteScene sb sceneId v = Inr v"
    by (simp add: handleDeleteScene_def)
  show "deleteSceneConfirmed sceneId st v = st"
    using assms h by (simp add: deleteSceneConfirmed_def confirmDeleteItem_closed)
qed

lemma solo_state_facts:
  "storyboardData soloState = Some (exampleStoryboard\<lparr> sb_scenes := [exampleScene2] \<rparr>)"
  "confirmDelete initialViewer = None"
  "currentShot_sceneIndex initialViewer = 0"
  "currentShot_shotIndex initialViewer = 0"
  by (simp_all add: soloState_def initialViewer_def)


text \<open>On the same input the viewer with the guards changes nothing.\<close>

lemma guarded_viewer_on_solo:
  "deleteShotConfirmed (Some (js ''s2'')) (Some (js ''c'')) soloState initialViewer = soloState
   \<and> deleteShotConfirmed None None soloState initialViewer = soloState
   \<and> deleteSceneConfirmed (Some (js ''s2'')) soloState initialViewer = soloState
   \<and> deleteSceneConfirmed None soloState initialViewer = soloState"
proof -
  have t: "truthy (Some (js ''s2''))" "truthy (Some (js ''c''))"
    by (simp_all add: truthy_def js_def)
  have f: "find (\<lambda>s. Some (scene_id s) = Some (js ''s2''))
             (sb_scenes (exampleStoryboard\<lparr> sb_scenes := [exampleScene2] \<rparr>)) = Some exampleScene2"
    "nth_opt (sb_scenes (exampleStoryboard\<lparr> sb_scenes := [exampleScene2] \<rparr>))
       (currentShot_sceneIndex initialViewer) = Some exampleScene2"
    "length (scene_shots exampleScene2) \<le> 1"
    "length (sb_scenes (exampleStoryboard\<lparr> sb_scenes := [exampleScene2] \<rparr>)) \<le> 1"
    by (simp_all add: example_state_facts nth_opt_def solo_state_facts)
  note g = guarded_viewer_refuses [OF solo_state_facts(1,2)]
  show ?thesis
    using g [of "Some (js ''s2'')" "Some (js ''c'')" exampleScene2]
      g [of None None exampleScene2] t f
    by simp
qed

subsection \<open>Counting pages\<close>

text \<open>
  The count that drives the proof: full pages count for \<open>L\<close> shots each, the open page
  for the shots it holds. A shot adds one to it; a forced break adds what the closed
  page lacks.
\<close>

lemma ceilDiv_pages:
  assumes "0 < L" "c < L"
  shows "ceilDiv (n * L + c) L = n + (if c = 0 then 0 else 1)"
proof (cases "c = 0")
  case True
  have "n * L + L - 1 = n * L + (L - 1)" using assms by simp
  moreover have "(n * L + (L - 1)) div L = n + (L - 1) div L"
    using assms by (simp only: div_mult_self3)
  moreover have "(L - 1) div L = 0" using assms by simp
  ultimately show ?thesis using True by (simp add: ceilDiv_def)
next
  case False
  then have "n * L + c + L - 1 = (n + 1) * L + (c - 1)" by (simp add: algebra_simps)
  moreover have "((n + 1) * L + (c - 1)) div L = (n + 1) + (c - 1) div L"
    using assms by (simp only: div_mult_self3)
  moreover have "(c - 1) div L = 0" using assms by simp
  ultimately show ?thesis using False by (simp add: ceilDiv_def)
qed

lemma ceilDiv_mono: "a \<le> b \<Longrightarrow> ceilDiv a L \<le> ceilDiv b L"
  by (simp add: ceilDiv_def div_le_mono)

lemma ceilDiv_add:
  assumes "0 < L"
  shows "ceilDiv (a + k * L) L = ceilDiv a L + k"
proof -
  have "a + k * L + L - 1 = (a + L - 1) + k * L" using assms by simp
  moreover have "((a + L - 1) + k * L) div L = k + (a + L - 1) div L"
    using assms by (simp only: div_mult_self1)
  ultimately show ?thesis by (simp add: ceilDiv_def)
qed

lemma shotStep_count:
  assumes "0 < L" "length (currentPageShots s) < L"
  shows "length (pages (shotStep L scene s shot)) * L
           + length (currentPageShots (shotStep L scene s shot))
         = length (pages s) * L + length (currentPageShots s) + 1
       \<and> length (currentPageShots (shotStep L scene s shot)) < L"
  using assms by (auto simp: shotStep_def pushPage_def Let_def)

lemma shotStep_page_sizes:
  assumes "0 < L" "length (currentPageShots s) < L"
    and "\<forall>p \<in> set (pages s). 1 \<le> length (page_shots p) \<and> length (page_shots p) \<le> L"
  shows "\<forall>p \<in> set (pages (shotStep L scene s shot)).
           1 \<le> length (page_shots p) \<and> length (page_shots p) \<le> L"
  using assms by (auto simp: shotStep_def pushPage_def Let_def)

lemma shots_loop:
  assumes "0 < L"
  shows "length (currentPageShots s) < L
     \<Longrightarrow> \<forall>p \<in> set (pages s). 1 \<le> length (page_shots p) \<and> length (page_shots p) \<le> L
     \<Longrightarrow> length (pages (foldl (shotStep L scene) s shots)) * L
           + length (currentPageShots (foldl (shotStep L scene) s shots))
         = length (pages s) * L + length (currentPageShots s) + length shots
       \<and> length (currentPageShots (foldl (shotStep L scene) s shots)) < L
       \<and> (\<forall>p \<in> set (pages (foldl (shotStep L scene) s shots)).
             1 \<le> length (page_shots p) \<and> length (page_shots p) \<le> L)"
proof (induction shots arbitrary: s)
  case Nil
  then show ?case by simp
next
  case (Cons x xs)
  note c = shotStep_count [OF assms Cons.prems(1), of scene x]
  note p = shotStep_page_sizes [OF assms Cons.prems(1,2), of scene x]
  from Cons.IH [of "shotStep L scene s x"] c p show ?case by simp
qed

lemma sceneStep_count:
  assumes "0 < L" "length (currentPageShots s) < L"
    and "\<forall>p \<in> set (pages s). 1 \<le> length (page_shots p) \<and> length (page_shots p) \<le> L"
  shows "length (pages s) * L + length (currentPageShots s) + length (scene_shots scene)
           \<le> length (pages (sceneStep L s scene)) * L
               + length (currentPageShots (sceneStep L s scene))
       \<and> length (pages (sceneStep L s scene)) * L + length (currentPageShots (sceneStep L s scene))
           \<le> length (pages s) * L + length (currentPageShots s) + length (scene_shots scene)
               + (if flagged scene then L else 0)
       \<and> (\<not> flagged scene \<longrightarrow>
             length (pages (sceneStep L s scene)) * L
               + length (currentPageShots (sceneStep L s scene))
             = length (pages s) * L + length (currentPageShots s) + length (scene_shots scene))
       \<and> length (currentPageShots (sceneStep L s scene)) < L
       \<and> (\<forall>p \<in> set (pages (sceneStep L s scene)).
             1 \<le> length (page_shots p) \<and> length (page_shots p) \<le> L)"
proof -
  define s1 where
    "s1 = (if scene_printPageBreakBefore scene = Some True \<and> length (currentPageShots s) > 0
           then pushPage s else s)"
  define s2 where "s2 = s1\<lparr> currentSceneHeader := Some (scene_id scene) \<rparr>"
  have step: "sceneStep L s scene = foldl (shotStep L scene) s2 (scene_shots scene)"
    by (simp add: sceneStep_def s1_def s2_def Let_def)
  have c2: "length (currentPageShots s2) < L"
    using assms by (simp add: s2_def s1_def pushPage_def)
  have p2: "\<forall>p \<in> set (pages s2). 1 \<le> length (page_shots p) \<and> length (page_shots p) \<le> L"
    using assms by (auto simp: s2_def s1_def pushPage_def Suc_le_eq)
  have lo: "length (pages s) * L + length (currentPageShots s)
              \<le> length (pages s2) * L + length (currentPageShots s2)"
    using assms by (auto simp: s2_def s1_def pushPage_def)
  have hi: "length (pages s2) * L + length (currentPageShots s2)
              \<le> length (pages s) * L + length (currentPageShots s) + (if flagged scene then L else 0)"
    using assms by (auto simp: s2_def s1_def pushPage_def flagged_def)
  have eq: "\<not> flagged scene \<longrightarrow> length (pages s2) * L + length (currentPageShots s2)
              = length (pages s) * L + length (currentPageShots s)"
    by (simp add: s2_def s1_def flagged_def)
  from shots_loop [OF assms(1) c2 p2, of scene "scene_shots scene"] lo hi eq
  show ?thesis unfolding step by auto
qed

lemma scenes_loop:
  assumes "0 < L"
  shows "length (currentPageShots s) < L
     \<Longrightarrow> \<forall>p \<in> set (pages s). 1 \<le> length (page_shots p) \<and> length (page_shots p) \<le> L
     \<Longrightarrow> length (pages s) * L + length (currentPageShots s)
             + sum_list (map (\<lambda>scene. length (scene_shots scene)) scenes)
           \<le> length (pages (foldl (sceneStep L) s scenes)) * L
               + length (currentPageShots (foldl (sceneStep L) s scenes))
       \<and> length (pages (foldl (sceneStep L) s scenes)) * L
               + length (currentPageShots (foldl (sceneStep L) s scenes))
           \<le> length (pages s) * L + length (currentPageShots s)
               + sum_list (map (\<lambda>scene. length (scene_shots scene)) scenes)
               + length (filter flagged scenes) * L
       \<and> (\<not> list_ex flagged scenes \<longrightarrow>
             length (pages (foldl (sceneStep L) s scenes)) * L
               + length (currentPageShots (foldl (sceneStep L) s scenes))
             = length (pages s) * L + length (currentPageShots s)
               + sum_list (map (\<lambda>scene. length (scene_shots scene)) scenes))
       \<and> length (currentPageShots (foldl (sceneStep L) s scenes)) < L
       \<and> (\<forall>p \<in> set (pages (foldl (sceneStep L) s scenes)).
             1 \<le> length (page_shots p) \<and> length (page_shots p) \<le> L)"
proof (induction scenes arbitrary: s)
  case Nil
  then show ?case by simp
next
  case (Cons x xs)
  note c = sceneStep_count [OF assms Cons.prems(1,2), of x]
  from c have c1: "length (currentPageShots (sceneStep L s x)) < L"
    and c2: "\<forall>p \<in> set (pages (sceneStep L s x)).
               1 \<le> length (page_shots p) \<and> length (page_shots p) \<le> L"
    by blast+
  note i = Cons.IH [OF c1 c2]
  show ?case
  proof (intro conjI impI)
    show "length (pages s) * L + length (currentPageShots s)
             + sum_list (map (\<lambda>scene. length (scene_shots scene)) (x # xs))
           \<le> length (pages (foldl (sceneStep L) s (x # xs))) * L
               + length (currentPageShots (foldl (sceneStep L) s (x # xs)))"
      using c i by simp
    show "length (pages (foldl (sceneStep L) s (x # xs))) * L
               + length (currentPageShots (foldl (sceneStep L) s (x # xs)))
           \<le> length (pages s) * L + length (currentPageShots s)
               + sum_list (map (\<lambda>scene. length (scene_shots scene)) (x # xs))
               + length (filter flagged (x # xs)) * L"
      using c i by (cases "flagged x") simp_all
    show "length (currentPageShots (foldl (sceneStep L) s (x # xs))) < L"
      using i by simp
    show "\<forall>p \<in> set (pages (foldl (sceneStep L) s (x # xs))).
             1 \<le> length (page_shots p) \<and> length (page_shots p) \<le> L"
      using i by simp
  next
    assume "\<not> list_ex flagged (x # xs)"
    then have "\<not> flagged x" "\<not> list_ex flagged xs" by simp_all
    then show "length (pages (foldl (sceneStep L) s (x # xs))) * L
               + length (currentPageShots (foldl (sceneStep L) s (x # xs)))
             = length (pages s) * L + length (currentPageShots s)
               + sum_list (map (\<lambda>scene. length (scene_shots scene)) (x # xs))"
      using c i by simp
  qed
qed

lemma previewPages_count:
  assumes "0 < L" "L = (if layout = Detailed then 1 else n)"
  shows "ceilDiv (totalShots sb) L \<le> length (previewPages layout n sb)
       \<and> length (previewPages layout n sb)
           \<le> ceilDiv (totalShots sb) L + length (filter flagged (sb_scenes sb))
       \<and> (\<not> list_ex flagged (sb_scenes sb)
            \<longrightarrow> length (previewPages layout n sb) = ceilDiv (totalShots sb) L)
       \<and> (\<forall>p \<in> set (previewPages layout n sb).
             1 \<le> length (page_shots p) \<and> length (page_shots p) \<le> L)"
proof -
  define s0 :: PaginationState where
    "s0 = \<lparr> pages = [], currentPageShots = [], currentPageNumber = 1, currentSceneHeader = None \<rparr>"
  define s where "s = foldl (sceneStep L) s0 (sb_scenes sb)"
  define phi where "phi = length (pages s) * L + length (currentPageShots s)"
  have pp: "previewPages layout n sb
              = (if length (currentPageShots s) > 0 then pages (pushPage s) else pages s)"
    using assms(2) by (simp add: previewPages_def s_def s0_def Let_def)
  have "length (currentPageShots s0) < L"
    "\<forall>p \<in> set (pages s0). 1 \<le> length (page_shots p) \<and> length (page_shots p) \<le> L"
    using assms(1) by (simp_all add: s0_def)
  from scenes_loop [OF assms(1) this, of "sb_scenes sb"]
  have lo: "totalShots sb \<le> phi"
    and hi: "phi \<le> totalShots sb + length (filter flagged (sb_scenes sb)) * L"
    and eq: "\<not> list_ex flagged (sb_scenes sb) \<longrightarrow> phi = totalShots sb"
    and cur: "length (currentPageShots s) < L"
    and sz: "\<forall>p \<in> set (pages s). 1 \<le> length (page_shots p) \<and> length (page_shots p) \<le> L"
    unfolding phi_def s_def totalShots_def by (simp_all add: s0_def)
  have len: "length (previewPages layout n sb) = ceilDiv phi L"
    unfolding phi_def ceilDiv_pages [OF assms(1) cur] pp by (simp add: pushPage_def)
  have 1: "ceilDiv (totalShots sb) L \<le> length (previewPages layout n sb)"
    unfolding len using lo by (rule ceilDiv_mono)
  have "ceilDiv phi L \<le> ceilDiv (totalShots sb + length (filter flagged (sb_scenes sb)) * L) L"
    using hi by (rule ceilDiv_mono)
  then have 2: "length (previewPages layout n sb)
           \<le> ceilDiv (totalShots sb) L + length (filter flagged (sb_scenes sb))"
    unfolding len ceilDiv_add [OF assms(1)] .
  have 3: "\<not> list_ex flagged (sb_scenes sb)
            \<longrightarrow> length (previewPages layout n sb) = ceilDiv (totalShots sb) L"
    unfolding len using eq by simp
  have 4: "\<forall>p \<in> set (previewPages layout n sb).
             1 \<le> length (page_shots p) \<and> length (page_shots p) \<le> L"
    unfolding pp using sz cur by (auto simp: pushPage_def Suc_le_eq)
  show ?thesis by (intro conjI 1 2 3 4)
qed

subsection \<open>Which shots a page holds\<close>

lemma chunks_Nil [simp]: "chunks L [] = []"
  by (simp add: chunks.simps)

lemma chunks_short: "xs \<noteq> [] \<Longrightarrow> length xs \<le> max 1 L \<Longrightarrow> chunks L xs = [xs]"
  by (simp add: chunks.simps [of L xs])

lemma chunks_full:
  "length xs = max 1 L \<Longrightarrow> chunks L (xs @ ys) = xs # chunks L ys"
  by (cases "xs = []") (auto simp: chunks.simps [of L "xs @ ys"])

lemma chunks_max: "chunks (max 1 L) xs = chunks L xs"
proof (induction L xs rule: chunks.induct)
  case (1 L xs)
  show ?case
  proof (cases "xs = []")
    case True
    then show ?thesis by simp
  next
    case False
    have m: "max 1 (max 1 L) = max 1 L" by simp
    have "chunks (max 1 L) xs
            = take (max 1 L) xs # chunks (max 1 L) (drop (max 1 L) xs)"
      using False by (subst chunks.simps) (simp only: m if_False)
    also have "\<dots> = take (max 1 L) xs # chunks L (drop (max 1 L) xs)"
      using 1 [OF False] by (simp only:)
    also have "\<dots> = chunks L xs"
      using False by (subst (2) chunks.simps) (simp only: if_False)
    finally show ?thesis .
  qed
qed

lemma length_chunks: "length (chunks L xs) = ceilDiv (length xs) (max 1 L)"
proof (induction L xs rule: chunks.induct)
  case (1 L xs)
  let ?L = "max 1 L"
  have L: "0 < ?L" by simp
  show ?case
  proof (cases "xs = []")
    case True
    then show ?thesis using L by (simp add: ceilDiv_def)
  next
    case False
    then have n: "0 < length xs" by simp
    have "length (chunks L xs) = Suc (ceilDiv (length xs - ?L) ?L)"
      using False 1 by (simp add: chunks.simps [of L xs])
    also have "\<dots> = ceilDiv (length xs) ?L"
    proof (cases "?L \<le> length xs")
      case True
      then have "length xs = (length xs - ?L) + 1 * ?L" by simp
      then have "ceilDiv (length xs) ?L = ceilDiv ((length xs - ?L) + 1 * ?L) ?L" by simp
      also have "\<dots> = ceilDiv (length xs - ?L) ?L + 1" using L by (rule ceilDiv_add)
      finally show ?thesis by simp
    next
      case False
      then have lt: "length xs < ?L" by (rule not_le_imp_less)
      from ceilDiv_pages [OF L lt, of 0] n have "ceilDiv (length xs) ?L = 1" by simp
      moreover have "length xs - ?L = 0" using lt by (simp only: diff_is_0_eq less_imp_le)
      moreover have "ceilDiv 0 ?L = 0" using L by (simp add: ceilDiv_def)
      ultimately show ?thesis by simp
    qed
    finally show ?thesis .
  qed
qed

lemma shotStep_max: "shotStep (max 1 L) scene s shot = shotStep L scene s shot"
  by (auto simp: shotStep_def Let_def)

lemma sceneStep_max: "sceneStep (max 1 L) s scene = sceneStep L s scene"
proof -
  have "shotStep (max 1 L) scene = shotStep L scene"
    by (intro ext) (rule shotStep_max)
  then show ?thesis by (simp add: sceneStep_def)
qed

text \<open>
  What is still to come, for an open page \<open>g\<close> and the scenes not yet visited. A full
  page at the head of the open group can be taken off it.
\<close>

lemma breakGroups_full:
  "length full = max 1 L
   \<Longrightarrow> concat (map (chunks L) (breakGroups (full @ g) scenes))
       = full # concat (map (chunks L) (breakGroups g scenes))"
proof (induction scenes arbitrary: g)
  case Nil
  then show ?case by (simp add: chunks_full)
next
  case (Cons scene rest)
  show ?case
  proof (cases "flagged scene")
    case True
    then show ?thesis using Cons.prems by (simp add: chunks_full)
  next
    case False
    then show ?thesis using Cons.IH [OF Cons.prems, of "g @ entries scene"] by simp
  qed
qed

lemma shots_loop_pages:
  assumes "0 < L"
  shows "length (currentPageShots s) < L
     \<Longrightarrow> map page_shots (pages (foldl (shotStep L scene) s shots))
           @ concat (map (chunks L)
               (breakGroups (currentPageShots (foldl (shotStep L scene) s shots)) rest))
         = map page_shots (pages s)
           @ concat (map (chunks L)
               (breakGroups (currentPageShots s
                  @ map (\<lambda>shot. \<lparr> pv_shotId = shot_id shot, pv_sceneId = scene_id scene \<rparr>) shots)
                  rest))
       \<and> length (currentPageShots (foldl (shotStep L scene) s shots)) < L"
proof (induction shots arbitrary: s)
  case Nil
  then show ?case by simp
next
  case (Cons x xs)
  let ?e = "\<lparr> pv_shotId = shot_id x, pv_sceneId = scene_id scene \<rparr>"
  let ?m = "map (\<lambda>shot. \<lparr> pv_shotId = shot_id shot, pv_sceneId = scene_id scene \<rparr>) xs"
  show ?case
  proof (cases "Suc (length (currentPageShots s)) < L")
    case True
    then have st: "shotStep L scene s x = s\<lparr> currentPageShots := currentPageShots s @ [?e] \<rparr>"
      by (simp add: shotStep_def Let_def)
    have "length (currentPageShots (shotStep L scene s x)) < L" using True by (simp add: st)
    from Cons.IH [OF this] show ?thesis by (simp add: st)
  next
    case False
    with Cons.prems have full: "length (currentPageShots s @ [?e]) = max 1 L" using assms by simp
    have st: "shotStep L scene s x
                = pushPage (s\<lparr> currentPageShots := currentPageShots s @ [?e] \<rparr>)"
      using False by (simp add: shotStep_def Let_def)
    have c: "currentPageShots (shotStep L scene s x) = []"
      and p: "map page_shots (pages (shotStep L scene s x))
                = map page_shots (pages s) @ [currentPageShots s @ [?e]]"
      by (simp_all add: st pushPage_def)
    have "length (currentPageShots (shotStep L scene s x)) < L" using assms by (simp add: c)
    from Cons.IH [OF this]
    have "map page_shots (pages (foldl (shotStep L scene) s (x # xs)))
           @ concat (map (chunks L)
               (breakGroups (currentPageShots (foldl (shotStep L scene) s (x # xs))) rest))
         = (map page_shots (pages s) @ [currentPageShots s @ [?e]])
           @ concat (map (chunks L) (breakGroups ?m rest))"
      and l: "length (currentPageShots (foldl (shotStep L scene) s (x # xs))) < L"
      by (simp_all add: c p)
    moreover have "concat (map (chunks L) (breakGroups ((currentPageShots s @ [?e]) @ ?m) rest))
            = (currentPageShots s @ [?e]) # concat (map (chunks L) (breakGroups ?m rest))"
      using full by (rule breakGroups_full)
    ultimately show ?thesis by simp
  qed
qed

lemma sceneStep_pages:
  assumes "0 < L" "length (currentPageShots s) < L"
  shows "map page_shots (pages (sceneStep L s scene))
           @ concat (map (chunks L) (breakGroups (currentPageShots (sceneStep L s scene)) rest))
         = map page_shots (pages s)
           @ concat (map (chunks L) (breakGroups (currentPageShots s) (scene # rest)))
       \<and> length (currentPageShots (sceneStep L s scene)) < L"
proof -
  define s1 where
    "s1 = (if scene_printPageBreakBefore scene = Some True \<and> length (currentPageShots s) > 0
           then pushPage s else s)"
  define s2 where "s2 = s1\<lparr> currentSceneHeader := Some (scene_id scene) \<rparr>"
  have step: "sceneStep L s scene = foldl (shotStep L scene) s2 (scene_shots scene)"
    by (simp add: sceneStep_def s1_def s2_def Let_def)
  have c2: "length (currentPageShots s2) < L"
    using assms by (simp add: s2_def s1_def pushPage_def)
  note loop = shots_loop_pages [OF assms(1) c2, of scene "scene_shots scene" rest]
  have e: "map (\<lambda>shot. \<lparr> pv_shotId = shot_id shot, pv_sceneId = scene_id scene \<rparr>) (scene_shots scene)
             = entries scene"
    by (simp add: entries_def)
  have "map page_shots (pages s2)
           @ concat (map (chunks L) (breakGroups (currentPageShots s2 @ entries scene) rest))
         = map page_shots (pages s)
           @ concat (map (chunks L) (breakGroups (currentPageShots s) (scene # rest)))"
  proof (cases "flagged scene")
    case False
    then show ?thesis by (simp add: s2_def s1_def flagged_def)
  next
    case True
    show ?thesis
    proof (cases "currentPageShots s = []")
      case e: True
      then show ?thesis using True by (simp add: s2_def s1_def flagged_def)
    next
      case ne: False
      then have "chunks L (currentPageShots s) = [currentPageShots s]"
        using assms(2) by (intro chunks_short) simp_all
      then show ?thesis using True ne by (simp add: s2_def s1_def flagged_def pushPage_def)
    qed
  qed
  with loop show ?thesis unfolding step e by simp
qed

lemma scenes_loop_pages:
  assumes "0 < L"
  shows "length (currentPageShots s) < L
     \<Longrightarrow> map page_shots (pages (foldl (sceneStep L) s scenes))
           @ concat (map (chunks L)
               (breakGroups (currentPageShots (foldl (sceneStep L) s scenes)) []))
         = map page_shots (pages s)
           @ concat (map (chunks L) (breakGroups (currentPageShots s) scenes))
       \<and> length (currentPageShots (foldl (sceneStep L) s scenes)) < L"
proof (induction scenes arbitrary: s)
  case Nil
  then show ?case by simp
next
  case (Cons x xs)
  note st = sceneStep_pages [OF assms Cons.prems, of x xs]
  from st have "length (currentPageShots (sceneStep L s x)) < L" by simp
  from Cons.IH [OF this] st show ?case by simp
qed

lemma previewPages_max: "previewPages layout n sb = previewPages layout (max 1 n) sb"
proof -
  have "sceneStep (max 1 n) = sceneStep n"
    by (intro ext) (rule sceneStep_max)
  then show ?thesis by (simp add: previewPages_def Let_def)
qed

lemma previewPages_grouped:
  assumes "L = (if layout = Detailed then 1 else n)"
  shows "map page_shots (previewPages layout n sb) = groupedPages L (sb_scenes sb)"
proof -
  define L' where "L' = max 1 L"
  have L': "0 < L'" by (simp add: L'_def)
  define s0 :: PaginationState where
    "s0 = \<lparr> pages = [], currentPageShots = [], currentPageNumber = 1, currentSceneHeader = None \<rparr>"
  define s where "s = foldl (sceneStep L') s0 (sb_scenes sb)"
  have sm: "sceneStep L' = sceneStep L"
    unfolding L'_def by (intro ext) (rule sceneStep_max)
  have pp: "previewPages layout n sb
              = (if length (currentPageShots s) > 0 then pages (pushPage s) else pages s)"
    using assms by (simp add: previewPages_def s_def s0_def Let_def sm)
  have "length (currentPageShots s0) < L'" using L' by (simp add: s0_def)
  from scenes_loop_pages [OF L' this, of "sb_scenes sb"]
  have eq: "map page_shots (pages s) @ concat (map (chunks L') (breakGroups (currentPageShots s) []))
              = concat (map (chunks L') (breakGroups [] (sb_scenes sb)))"
    and cur: "length (currentPageShots s) < L'"
    unfolding s_def by (simp_all add: s0_def)
  have "map page_shots (previewPages layout n sb)
          = map page_shots (pages s) @ chunks L' (currentPageShots s)"
  proof (cases "currentPageShots s = []")
    case True
    then show ?thesis by (simp add: pp)
  next
    case False
    then have "chunks L' (currentPageShots s) = [currentPageShots s]"
      using cur by (intro chunks_short) simp_all
    then show ?thesis using False by (simp add: pp pushPage_def)
  qed
  also have "\<dots> = concat (map (chunks L') (breakGroups [] (sb_scenes sb)))"
    using eq by simp
  also have "chunks L' = chunks L"
    unfolding L'_def by (intro ext) (rule chunks_max)
  finally show ?thesis by (simp add: groupedPages_def)
qed

lemma breakGroups_unflagged:
  "\<not> list_ex flagged scenes \<Longrightarrow> breakGroups g scenes = [g @ concat (map entries scenes)]"
  by (induction scenes arbitrary: g) simp_all

lemma length_entries: "length (concat (map entries scenes)) = sum_list (map (\<lambda>scene. length (scene_shots scene)) scenes)"
  by (induction scenes) (simp_all add: entries_def)

lemma length_groupedPages:
  "length (groupedPages L scenes)
     = sum_list (map (\<lambda>g. ceilDiv (length g) (max 1 L)) (breakGroups [] scenes))"
  by (simp add: groupedPages_def length_concat comp_def length_chunks)

lemma example_pages:
  "map (map pv_shotId \<circ> page_shots) (previewPages Grid 2 exampleStoryboard)
     = [[js ''a'', js ''b''], [js ''c'']]"
  "map (map pv_shotId \<circ> page_shots) (previewPages Detailed 2 exampleStoryboard)
     = [[js ''a''], [js ''b''], [js ''c'']]"
  "map (map pv_shotId \<circ> page_shots) (previewPages Grid 3 breakStoryboard)
     = [[js ''c''], [js ''a'', js ''b'', js ''e'']]"
  "map (map pv_shotId \<circ> page_shots) (previewPages Grid 2 breakStoryboard)
     = [[js ''c''], [js ''a'', js ''b''], [js ''e'']]"
  by (simp_all add: previewPages_def sceneStep_def shotStep_def pushPage_def Let_def
      example_state_facts breakStoryboard_def)

lemma example_totals:
  "totalShots exampleStoryboard = 3" "totalShots breakStoryboard = 4"
  "\<not> list_ex flagged (sb_scenes exampleStoryboard)"
  "length (filter flagged (sb_scenes breakStoryboard)) = 1"
  by (simp_all add: totalShots_def flagged_def example_state_facts breakStoryboard_def
      exampleScene1_def exampleScene2_def)

text \<open>
  Claim C6, as the code has it. Let \<open>L\<close> be the limit of shots per page:
  \<open>shotsPerPage\<close> in the grid and list layouts, 1 in the detailed layout. The pages of the
  preview hold the shots that \<open>groupedPages\<close> describes: every scene flagged
  \<open>printPageBreakBefore\<close> starts a new group of scenes, and the shots of each group are
  cut into pages of \<open>L\<close> shots, the last page of the group holding the rest. So the
  number of pages is the sum, over the groups, of \<open>ceil(S\<^sub>g/L)\<close> for the \<open>S\<^sub>g\<close> shots of
  the group. When no scene is flagged that is \<open>ceil(S/L)\<close> for the \<open>S\<close> shots of the
  storyboard; with flagged scenes it is at least \<open>ceil(S/L)\<close> and at most that many plus
  the number of flagged scenes. Every page holds between 1 and \<open>L\<close> shots. A limit of 0
  acts as a limit of 1.
\<close>

theorem previewPages_page_count:
  "map page_shots (previewPages layout n sb)
     = groupedPages (if layout = Detailed then 1 else n) (sb_scenes sb)
   \<and> length (previewPages layout n sb)
       = sum_list (map (\<lambda>g. ceilDiv (length g) (max 1 (if layout = Detailed then 1 else n)))
           (breakGroups [] (sb_scenes sb)))
   \<and> (\<not> list_ex flagged (sb_scenes sb)
        \<longrightarrow> length (previewPages layout n sb)
              = ceilDiv (totalShots sb) (max 1 (if layout = Detailed then 1 else n)))
   \<and> ceilDiv (totalShots sb) (max 1 (if layout = Detailed then 1 else n))
       \<le> length (previewPages layout n sb)
   \<and> length (previewPages layout n sb)
       \<le> ceilDiv (totalShots sb) (max 1 (if layout = Detailed then 1 else n))
           + length (filter flagged (sb_scenes sb))
   \<and> (\<forall>p \<in> set (previewPages layout n sb).
         1 \<le> length (page_shots p)
       \<and> length (page_shots p) \<le> max 1 (if layout = Detailed then 1 else n))"
proof -
  define L where "L = (if layout = Detailed then 1 else n)"
  have g: "map page_shots (previewPages layout n sb) = groupedPages L (sb_scenes sb)"
    using L_def by (rule previewPages_grouped)
  have "length (map page_shots (previewPages layout n sb)) = length (groupedPages L (sb_scenes sb))"
    by (simp only: g)
  then have l: "length (previewPages layout n sb)
       = sum_list (map (\<lambda>g. ceilDiv (length g) (max 1 L)) (breakGroups [] (sb_scenes sb)))"
    by (simp add: length_groupedPages)
  have m: "max 1 L = (if layout = Detailed then 1 else max 1 n)"
    by (simp add: L_def)
  have "0 < max 1 L" by simp
  from previewPages_count [OF this m, of sb]
  have c: "ceilDiv (totalShots sb) (max 1 L) \<le> length (previewPages layout n sb)"
    "length (previewPages layout n sb)
       \<le> ceilDiv (totalShots sb) (max 1 L) + length (filter flagged (sb_scenes sb))"
    "\<not> list_ex flagged (sb_scenes sb)
        \<longrightarrow> length (previewPages layout n sb) = ceilDiv (totalShots sb) (max 1 L)"
    "\<forall>p \<in> set (previewPages layout n sb).
         1 \<le> length (page_shots p) \<and> length (page_shots p) \<le> max 1 L"
    unfolding previewPages_max [of layout n sb, symmetric] by blast+
  show ?thesis
    using g l c unfolding L_def by (intro conjI)
qed

lemma example_groupedPages:
  "map (map pv_shotId) (groupedPages 2 (sb_scenes breakStoryboard))
     = [[js ''c''], [js ''a'', js ''b''], [js ''e'']]"
  by (simp add: groupedPages_def breakStoryboard_def example_state_facts flagged_def entries_def
      exampleScene1_def exampleScene2_def chunks.simps)

theorem previewPages_page_count_witness:
  "\<not> list_ex flagged (sb_scenes exampleStoryboard)
   \<and> totalShots exampleStoryboard = 3
   \<and> length (previewPages Grid 2 exampleStoryboard) = 2
   \<and> previewPages Grid 2 exampleStoryboard \<noteq> []
   \<and> length (filter flagged (sb_scenes breakStoryboard)) = 1
   \<and> map (map pv_shotId) (groupedPages 2 (sb_scenes breakStoryboard))
       = [[js ''c''], [js ''a'', js ''b''], [js ''e'']]
   \<and> map (map pv_shotId \<circ> page_shots) (previewPages Grid 2 breakStoryboard)
       = [[js ''c''], [js ''a'', js ''b''], [js ''e'']]
   \<and> length (previewPages Grid 2 breakStoryboard) = 3"
proof -
  have m: "max 1 (if Grid = Detailed then 1 else (2::nat)) = 2" by simp
  note t = previewPages_page_count [of Grid 2 exampleStoryboard, unfolded m]
  note u = previewPages_page_count [of Grid 2 breakStoryboard]
  have c: "ceilDiv 3 2 = 2" by (simp add: ceilDiv_def)
  from t have "\<not> list_ex flagged (sb_scenes exampleStoryboard)
        \<longrightarrow> length (previewPages Grid 2 exampleStoryboard) = ceilDiv (totalShots exampleStoryboard) 2"
    by (elim conjE)
  then have l: "length (previewPages Grid 2 exampleStoryboard) = 2"
    using example_totals(1,3) c by (simp only: simp_thms)
  then have n: "previewPages Grid 2 exampleStoryboard \<noteq> []" by auto
  have "map page_shots (previewPages Grid 2 breakStoryboard)
          = groupedPages 2 (sb_scenes breakStoryboard)"
    using u by simp
  then have "map (map pv_shotId) (map page_shots (previewPages Grid 2 breakStoryboard))
          = map (map pv_shotId) (groupedPages 2 (sb_scenes breakStoryboard))"
    by (simp only:)
  then have p: "map (map pv_shotId \<circ> page_shots) (previewPages Grid 2 breakStoryboard)
       = [[js ''c''], [js ''a'', js ''b''], [js ''e'']]"
    by (simp add: example_groupedPages)
  then have "length (map (map pv_shotId \<circ> page_shots) (previewPages Grid 2 breakStoryboard)) = 3"
    by (simp only:) simp
  then have b: "length (previewPages Grid 2 breakStoryboard) = 3" by simp
  show ?thesis by (intro conjI example_totals l n example_groupedPages p b)
qed

text \<open>
  Claim C6 as stated gives one extra page to every scene that forces a break before the
  page has reached \<open>L\<close> shots. With \<open>L = 3\<close>, the second scene of \<open>breakStoryboard\<close>
  forces a break when the page holds one shot, and the four shots still take
  \<open>ceil(4/3) = 2\<close> pages, not 3.
\<close>

theorem forced_break_extra_page_counterexample:
  "totalShots breakStoryboard = 4
   \<and> length (filter flagged (sb_scenes breakStoryboard)) = 1
   \<and> map (map pv_shotId \<circ> page_shots) (previewPages Grid 3 breakStoryboard)
       = [[js ''c''], [js ''a'', js ''b'', js ''e'']]
   \<and> length (previewPages Grid 3 breakStoryboard) = 2
   \<and> ceilDiv 4 3 + 1 = 3
   \<and> length (previewPages Grid 3 breakStoryboard) \<noteq> ceilDiv (totalShots breakStoryboard) 3 + 1"
proof -
  have l: "length (map (map pv_shotId \<circ> page_shots) (previewPages Grid 3 breakStoryboard)) = 2"
    by (simp only: example_pages) simp
  then have l': "length (previewPages Grid 3 breakStoryboard) = 2" by simp
  have c: "ceilDiv 4 3 + 1 = 3" by (simp add: ceilDiv_def)
  show ?thesis
    using l' c by (simp add: example_totals example_pages)
qed

subsection \<open>The placeholder URL\<close>

lemma placeholderUrl_literal:
  "placeholderUrl query = js ''/placeholder.svg?height=450&width=800&query='' @ query"
  by (simp add: placeholderUrl_def natToString.simps js_def)

lemma encodeURIComponent_letters:
  "encodeURIComponent (replicate n 0x61 @ xs)
     = (case encodeURIComponent xs of Inl e \<Rightarrow> Inl e | Inr r \<Rightarrow> Inr (replicate n 0x61 @ r))"
  by (induction n) (simp_all add: uriUnreserved_def split: sum.splits)

lemma encode_examples:
  "encodeURIComponent [0xD83D] = Inl URIError"
  "encodeURIComponent [0xD83D, 0xDE00] = Inr (js ''%F0%9F%98%80'')"
  "encodeURIComponent (js ''a b/c'') = Inr (js ''a%20b%2Fc'')"
  "encodeURIComponent [0xE9] = Inr (js ''%C3%A9'')"
  "encodeURIComponent [0x20AC] = Inr (js ''%E2%82%AC'')"
  by (simp_all add: uriUnreserved_def isLowSurrogate_def isHighSurrogate_def codePoint_def
      utf8_def percentEncode_def hexDigit_def js_def)

lemma take_longPrompt: "take 100 longPrompt = replicate 100 0x61"
  by (simp add: longPrompt_def)

lemma encode_longPrompt:
  "encodeURIComponent longPrompt = Inr longPrompt"
  "encodeURIComponent (take 100 longPrompt) = Inr (replicate 100 0x61)"
  unfolding take_longPrompt longPrompt_def
  using encodeURIComponent_letters [of 101 "[]"] encodeURIComponent_letters [of 100 "[]"]
  by simp_all

lemma take_emojiPrompt: "take 100 emojiPrompt = replicate 99 0x61 @ [0xD83D]"
  by (simp add: emojiPrompt_def)

lemma encode_emojiPrompt:
  "encodeURIComponent (take 100 emojiPrompt) = Inl URIError"
  "encodeURIComponent emojiPrompt = Inr (replicate 99 0x61 @ js ''%F0%9F%98%80'')"
proof -
  show "encodeURIComponent (take 100 emojiPrompt) = Inl URIError"
    unfolding take_emojiPrompt encodeURIComponent_letters encode_examples by simp
  show "encodeURIComponent emojiPrompt = Inr (replicate 99 0x61 @ js ''%F0%9F%98%80'')"
    unfolding emojiPrompt_def encodeURIComponent_letters encode_examples by simp
qed

lemma generateImage_alone:
  "\<not> callsApi (newService a k) \<Longrightarrow>
   run [GenerateImage prompt] (newService a k)
     = Some ((newService a k)
          \<lparr> outcomes := [case generatePlaceholderImage a prompt of
                            Inl e \<Rightarrow> Abandoned 0 e | Inr url \<Rightarrow> Resolved 0 url],
            timers := 1, calls := 1 \<rparr>)"
  by (simp add: step_def processQueue_def finishRequest_def newService_def callsApi_def Let_def
      split: sum.splits)

lemma generateImage_twice:
  "\<not> callsApi (newService a k) \<Longrightarrow>
   run [GenerateImage prompt, GenerateImage prompt'] (newService a k)
     = Some ((newService a k)
          \<lparr> outcomes := [case generatePlaceholderImage a prompt of
                            Inl e \<Rightarrow> Abandoned 0 e | Inr url \<Rightarrow> Resolved 0 url,
                          case generatePlaceholderImage a prompt' of
                            Inl e \<Rightarrow> Abandoned 1 e | Inr url \<Rightarrow> Resolved 1 url],
            timers := 2, calls := 2 \<rparr>)"
  by (simp add: step_def processQueue_def finishRequest_def newService_def callsApi_def Let_def
      split: sum.splits)

subsection \<open>The order of the queue\<close>

text \<open>
  What holds between two events: the service processes exactly when a request awaits its
  API call, at most one request does, and the promises already settled, then the one
  awaiting, then those queued are the promises in the order of the calls. A queued
  request is never stranded: some request awaits or some timer is armed.
\<close>

lemma outcomePromise_finish:
  "map outcomePromise (outcomes (finishRequest r s))
     = map outcomePromise (outcomes s) @ [req_promise r]"
  by (simp add: finishRequest_def split: sum.splits)

lemma processQueue_invariant:
  assumes "isProcessing s \<longleftrightarrow> awaiting s \<noteq> []" "length (awaiting s) \<le> 1"
    and "map outcomePromise (outcomes s) @ map req_promise (awaiting s)
           @ map req_promise (requestQueue s) = [0..<calls s]"
  shows "(isProcessing (processQueue s) \<longleftrightarrow> awaiting (processQueue s) \<noteq> [])
       \<and> length (awaiting (processQueue s)) \<le> 1
       \<and> map outcomePromise (outcomes (processQueue s))
           @ map req_promise (awaiting (processQueue s))
           @ map req_promise (requestQueue (processQueue s)) = [0..<calls (processQueue s)]
       \<and> (requestQueue (processQueue s) \<noteq> []
            \<longrightarrow> awaiting (processQueue s) \<noteq> [] \<or> 0 < timers (processQueue s))"
proof (cases "isProcessing s \<or> requestQueue s = []")
  case True
  then show ?thesis using assms by (auto simp: processQueue_def)
next
  case False
  then obtain r rs where q: "requestQueue s = r # rs" by (cases "requestQueue s") auto
  from False assms(1) have a: "awaiting s = []" by simp
  show ?thesis
    using False q a assms(3)
    by (cases "callsApi s")
       (simp_all add: processQueue_def Let_def finishRequest_def callsApi_def split: sum.splits)
qed

lemma step_invariant:
  assumes "isProcessing s \<longleftrightarrow> awaiting s \<noteq> []" "length (awaiting s) \<le> 1"
    and "map outcomePromise (outcomes s) @ map req_promise (awaiting s)
           @ map req_promise (requestQueue s) = [0..<calls s]"
    and "step ev s = Some s'"
  shows "(isProcessing s' \<longleftrightarrow> awaiting s' \<noteq> [])
       \<and> length (awaiting s') \<le> 1
       \<and> map outcomePromise (outcomes s') @ map req_promise (awaiting s')
           @ map req_promise (requestQueue s') = [0..<calls s']
       \<and> (requestQueue s' \<noteq> [] \<longrightarrow> awaiting s' \<noteq> [] \<or> 0 < timers s')"
proof (cases ev)
  case (GenerateImage prompt)
  let ?s = "s\<lparr> requestQueue := requestQueue s @ [\<lparr> req_promise = calls s, req_prompt = prompt \<rparr>],
               calls := calls s + 1 \<rparr>"
  have s': "s' = processQueue ?s" using assms(4) GenerateImage by (simp add: step_def)
  have "map outcomePromise (outcomes ?s) @ map req_promise (awaiting ?s)
           @ map req_promise (requestQueue ?s) = [0..<calls ?s]"
    using assms(3) by (simp add: append_assoc [symmetric] del: append_assoc)
  from processQueue_invariant [of ?s, OF _ _ this] assms(1,2)
  show ?thesis unfolding s' by simp
next
  case TimerFires
  let ?s = "s\<lparr> timers := timers s - 1 \<rparr>"
  have s': "s' = processQueue ?s"
    using assms(4) TimerFires by (simp add: step_def split: if_splits)
  from processQueue_invariant [of ?s] assms(1,2,3)
  show ?thesis unfolding s' by simp
next
  case (ApiReturns k)
  from assms(4) ApiReturns have k: "k < length (awaiting s)"
    and s': "s' = finishRequest (awaiting s ! k)
                    (s\<lparr> awaiting := take k (awaiting s) @ drop (Suc k) (awaiting s) \<rparr>)"
    by (simp_all add: step_def split: if_splits)
  from k assms(2) obtain r where a: "awaiting s = [r]" "k = 0"
    by (cases "awaiting s") auto
  show ?thesis
    unfolding s' using a assms(3)
    by (simp add: finishRequest_def split: sum.splits)
qed

lemma newService_invariant:
  "(isProcessing (newService a k) \<longleftrightarrow> awaiting (newService a k) \<noteq> [])
   \<and> length (awaiting (newService a k)) \<le> 1
   \<and> map outcomePromise (outcomes (newService a k)) @ map req_promise (awaiting (newService a k))
       @ map req_promise (requestQueue (newService a k)) = [0..<calls (newService a k)]
   \<and> (requestQueue (newService a k) \<noteq> []
        \<longrightarrow> awaiting (newService a k) \<noteq> [] \<or> 0 < timers (newService a k))"
  by (simp add: newService_def)

lemma run_invariant:
  "(isProcessing s \<longleftrightarrow> awaiting s \<noteq> []) \<and> length (awaiting s) \<le> 1
     \<and> map outcomePromise (outcomes s) @ map req_promise (awaiting s)
         @ map req_promise (requestQueue s) = [0..<calls s]
     \<and> (requestQueue s \<noteq> [] \<longrightarrow> awaiting s \<noteq> [] \<or> 0 < timers s)
   \<Longrightarrow> run evs s = Some s'
   \<Longrightarrow> (isProcessing s' \<longleftrightarrow> awaiting s' \<noteq> []) \<and> length (awaiting s') \<le> 1
     \<and> map outcomePromise (outcomes s') @ map req_promise (awaiting s')
         @ map req_promise (requestQueue s') = [0..<calls s']
     \<and> (requestQueue s' \<noteq> [] \<longrightarrow> awaiting s' \<noteq> [] \<or> 0 < timers s')"
proof (induction evs arbitrary: s)
  case Nil
  then show ?case by simp
next
  case (Cons ev evs)
  from Cons.prems(2) obtain s1 where s1: "step ev s = Some s1" "run evs s1 = Some s'"
    by (auto split: option.splits)
  from Cons.prems(1) have "isProcessing s \<longleftrightarrow> awaiting s \<noteq> []" "length (awaiting s) \<le> 1"
    "map outcomePromise (outcomes s) @ map req_promise (awaiting s)
         @ map req_promise (requestQueue s) = [0..<calls s]"
    by simp_all
  from step_invariant [OF this s1(1)] show ?case by (rule Cons.IH [OF _ s1(2)])
qed

text \<open>
  Requests are taken in the order of the calls and one at a time: in every state that a
  service reaches, the settled promises are the first promises, in the order of the
  calls, at most one request awaits its API call, and when no timer is armed and no
  request awaits, every promise that \<open>generateImage\<close> returned has been taken from the
  queue and settled.
\<close>

lemma queue_is_fifo:
  assumes "run evs (newService a k) = Some s"
  shows "map outcomePromise (outcomes s) = [0..<length (outcomes s)]
       \<and> length (awaiting s) \<le> 1
       \<and> (timers s = 0 \<and> awaiting s = [] \<longrightarrow> length (outcomes s) = calls s \<and> requestQueue s = [])"
proof -
  from run_invariant [OF newService_invariant assms]
  have i: "map outcomePromise (outcomes s) @ map req_promise (awaiting s)
         @ map req_promise (requestQueue s) = [0..<calls s]"
    and l: "length (awaiting s) \<le> 1"
    and p: "requestQueue s \<noteq> [] \<longrightarrow> awaiting s \<noteq> [] \<or> 0 < timers s"
    by simp_all
  from i have "take (length (outcomes s)) [0..<calls s] = map outcomePromise (outcomes s)"
    by (metis append_eq_conv_conj length_map)
  moreover from i have "length (outcomes s) \<le> calls s"
    by (metis length_append length_map length_upt diff_zero le_add1)
  ultimately have 1: "map outcomePromise (outcomes s) = [0..<length (outcomes s)]"
    by (simp add: take_upt)
  have 3: "timers s = 0 \<and> awaiting s = [] \<longrightarrow> length (outcomes s) = calls s \<and> requestQueue s = []"
  proof
    assume q: "timers s = 0 \<and> awaiting s = []"
    with p have e: "requestQueue s = []" by auto
    with q i have "map outcomePromise (outcomes s) = [0..<calls s]" by simp
    then have "length (outcomes s) = calls s" by (metis length_map length_upt diff_zero)
    with e show "length (outcomes s) = calls s \<and> requestQueue s = []" by simp
  qed
  show ?thesis by (intro conjI 1 l 3)
qed

lemma processQueue_outcomes: "\<exists>ys. outcomes (processQueue s) = outcomes s @ ys"
  by (simp add: processQueue_def finishRequest_def Let_def)

lemma step_outcomes: "step ev s = Some s' \<Longrightarrow> \<exists>ys. outcomes s' = outcomes s @ ys"
proof (cases ev)
  case (GenerateImage prompt)
  assume "step ev s = Some s'"
  with GenerateImage processQueue_outcomes
    [of "s\<lparr> requestQueue := requestQueue s @ [\<lparr> req_promise = calls s, req_prompt = prompt \<rparr>],
            calls := calls s + 1 \<rparr>"]
  show ?thesis by (simp add: step_def)
next
  case TimerFires
  assume "step ev s = Some s'"
  with TimerFires processQueue_outcomes [of "s\<lparr> timers := timers s - 1 \<rparr>"]
  show ?thesis by (simp add: step_def split: if_splits)
next
  case (ApiReturns k)
  assume "step ev s = Some s'"
  with ApiReturns show ?thesis by (auto simp: step_def finishRequest_def split: if_splits)
qed

lemma run_outcomes: "run evs s = Some s' \<Longrightarrow> \<exists>ys. outcomes s' = outcomes s @ ys"
proof (induction evs arbitrary: s)
  case Nil
  then show ?case by simp
next
  case (Cons ev evs)
  from Cons.prems obtain s1 where s1: "step ev s = Some s1" "run evs s1 = Some s'"
    by (auto split: option.splits)
  from step_outcomes [OF s1(1)] Cons.IH [OF s1(2)] show ?case by auto
qed

lemma run_append:
  "run (evs @ evs') s = (case run evs s of None \<Rightarrow> None | Some s1 \<Rightarrow> run evs' s1)"
  by (induction evs arbitrary: s) (auto split: option.splits)

text \<open>
  A promise that the service has abandoned stays unsettled for good: whatever happens
  later, it is not resolved.
\<close>

lemma abandoned_never_resolved:
  assumes "run evs (newService a k) = Some s" "Abandoned n e \<in> set (outcomes s)"
    and "run evs' s = Some s'"
  shows "Resolved n url \<notin> set (outcomes s')"
proof
  assume r: "Resolved n url \<in> set (outcomes s')"
  from assms(1,3) have "run (evs @ evs') (newService a k) = Some s'"
    by (simp add: run_append)
  from queue_is_fifo [OF this]
  have "map outcomePromise (outcomes s') = [0..<length (outcomes s')]" by simp
  then have "distinct (map outcomePromise (outcomes s'))" by (metis distinct_upt)
  then have i: "inj_on outcomePromise (set (outcomes s'))" by (simp add: distinct_map)
  from run_outcomes [OF assms(3)] assms(2) have "Abandoned n e \<in> set (outcomes s')" by auto
  from inj_onD [OF i _ this r] have "Abandoned n e = Resolved n url" by simp
  then show False by simp
qed

subsection \<open>The URL of every request\<close>

lemma prompts_append: "prompts (evs @ evs') = prompts evs @ prompts evs'"
  by (induction evs rule: prompts.induct) simp_all

lemma outcomePromise_settled [simp]: "outcomePromise (settled a n p) = n"
  by (simp add: settled_def split: sum.splits)

lemma finishRequest_settled:
  "outcomes (finishRequest r s) = outcomes s @ [settled (adapter s) (req_promise r) (req_prompt r)]"
  by (simp add: finishRequest_def settled_def)

lemma finishRequest_fields:
  "adapter (finishRequest r s) = adapter s" "calls (finishRequest r s) = calls s"
  "awaiting (finishRequest r s) = awaiting s" "requestQueue (finishRequest r s) = requestQueue s"
  by (simp_all add: finishRequest_def)

lemma tracks_finishRequest:
  assumes "tracks a ps s" "req_promise r < length ps" "req_prompt r = ps ! req_promise r"
  shows "tracks a ps (finishRequest r s)"
  using assms unfolding tracks_def finishRequest_settled finishRequest_fields by auto

lemma tracks_processQueue:
  assumes "tracks a ps s"
  shows "tracks a ps (processQueue s)"
proof (cases "isProcessing s \<or> requestQueue s = []")
  case True
  then show ?thesis using assms by (auto simp: processQueue_def)
next
  case False
  then obtain r rs where q: "requestQueue s = r # rs" by (cases "requestQueue s") auto
  have r: "req_promise r < length ps" "req_prompt r = ps ! req_promise r"
    using assms q by (simp_all add: tracks_def)
  let ?s = "s\<lparr> isProcessing := True, requestQueue := rs \<rparr>"
  have t: "tracks a ps ?s" using assms q by (simp add: tracks_def)
  show ?thesis
  proof (cases "callsApi s")
    case True
    have "tracks a ps (?s\<lparr> awaiting := awaiting ?s @ [r] \<rparr>)"
      using assms q r by (simp add: tracks_def)
    then show ?thesis using False q True by (simp add: processQueue_def Let_def)
  next
    case c: False
    from tracks_finishRequest [OF t r] show ?thesis
      using False q c by (simp add: processQueue_def Let_def)
  qed
qed

lemma tracks_step:
  assumes "tracks a ps s" "step ev s = Some s'"
  shows "tracks a (ps @ prompts [ev]) s'"
proof (cases ev)
  case (GenerateImage p)
  let ?s = "s\<lparr> requestQueue := requestQueue s @ [\<lparr> req_promise = calls s, req_prompt = p \<rparr>],
               calls := calls s + 1 \<rparr>"
  have old: "\<forall>r \<in> set (awaiting s) \<union> set (requestQueue s).
           req_promise r < length (ps @ [p]) \<and> req_prompt r = (ps @ [p]) ! req_promise r"
    using assms(1) unfolding tracks_def by (simp add: nth_append less_SucI)
  have out: "\<forall>out \<in> set (outcomes s).
           outcomePromise out < length (ps @ [p])
           \<and> out = settled a (outcomePromise out) ((ps @ [p]) ! outcomePromise out)"
    using assms(1) unfolding tracks_def by (simp add: nth_append less_SucI)
  have "tracks a (ps @ [p]) ?s"
    using assms(1) old out unfolding tracks_def by (simp add: nth_append ball_Un)
  from tracks_processQueue [OF this] show ?thesis
    using assms(2) GenerateImage by (simp add: step_def)
next
  case TimerFires
  have "tracks a ps (s\<lparr> timers := timers s - 1 \<rparr>)"
    using assms(1) by (simp add: tracks_def)
  from tracks_processQueue [OF this] show ?thesis
    using assms(2) TimerFires by (simp add: step_def split: if_splits)
next
  case (ApiReturns k)
  from assms(2) ApiReturns have k: "k < length (awaiting s)"
    and s': "s' = finishRequest (awaiting s ! k)
                    (s\<lparr> awaiting := take k (awaiting s) @ drop (Suc k) (awaiting s) \<rparr>)"
    by (simp_all add: step_def split: if_splits)
  have m: "awaiting s ! k \<in> set (awaiting s)" using k by simp
  have sub: "set (take k (awaiting s) @ drop (Suc k) (awaiting s)) \<subseteq> set (awaiting s)"
    using set_take_subset [of k "awaiting s"] set_drop_subset [of "Suc k" "awaiting s"] by auto
  have t: "tracks a ps (s\<lparr> awaiting := take k (awaiting s) @ drop (Suc k) (awaiting s) \<rparr>)"
    using assms(1) sub unfolding tracks_def by (simp del: set_append) blast
  have r: "req_promise (awaiting s ! k) < length ps"
    "req_prompt (awaiting s ! k) = ps ! req_promise (awaiting s ! k)"
    using assms(1) m by (simp_all add: tracks_def)
  from tracks_finishRequest [OF t r] show ?thesis
    unfolding s' using ApiReturns by simp
qed

lemma tracks_run:
  "tracks a ps s \<Longrightarrow> run evs s = Some s' \<Longrightarrow> tracks a (ps @ prompts evs) s'"
proof (induction evs arbitrary: s ps)
  case Nil
  then show ?case by simp
next
  case (Cons ev evs)
  from Cons.prems(2) obtain s1 where s1: "step ev s = Some s1" "run evs s1 = Some s'"
    by (auto split: option.splits)
  from Cons.IH [OF tracks_step [OF Cons.prems(1) s1(1)] s1(2)]
  have "tracks a ((ps @ prompts [ev]) @ prompts evs) s'" .
  moreover have "prompts (ev # evs) = prompts [ev] @ prompts evs"
    using prompts_append [of "[ev]" evs] by simp
  ultimately show ?case by simp
qed

lemma tracks_newService: "tracks a [] (newService a k)"
  by (simp add: tracks_def newService_def)

lemma run_settled:
  assumes "run evs (newService a k) = Some s" "i < length (outcomes s)"
  shows "i < length (prompts evs) \<and> outcomes s ! i = settled a i (prompts evs ! i)"
proof -
  from tracks_run [OF tracks_newService assms(1)] have t: "tracks a (prompts evs) s" by simp
  from queue_is_fifo [OF assms(1)]
  have "map outcomePromise (outcomes s) = [0..<length (outcomes s)]" by simp
  then have "map outcomePromise (outcomes s) ! i = [0..<length (outcomes s)] ! i" by simp
  then have p: "outcomePromise (outcomes s ! i) = i" using assms(2) by simp
  have "outcomes s ! i \<in> set (outcomes s)" using assms(2) by simp
  with t have "outcomePromise (outcomes s ! i) < length (prompts evs)
     \<and> outcomes s ! i = settled a (outcomePromise (outcomes s ! i))
                           (prompts evs ! outcomePromise (outcomes s ! i))"
    unfolding tracks_def by blast
  then show ?thesis unfolding p .
qed

lemma settled_url:
  "(encodeURIComponent (take 100 p) = Inr q
      \<longrightarrow> settled FalImageService n p
            = Resolved n (js ''/placeholder.svg?height=450&width=800&query='' @ q))
   \<and> (encodeURIComponent p = Inr q
      \<longrightarrow> settled ImageGenerationService n p
            = Resolved n (js ''/placeholder.svg?height=450&width=800&query='' @ q))"
  by (simp add: settled_def generatePlaceholderImage_def placeholderUrl_literal)

lemma processQueue_head:
  assumes "\<not> isProcessing s" "requestQueue s = r # rs" "\<not> callsApi s"
  shows "outcomes (processQueue s) = outcomes s @ [settled (adapter s) (req_promise r) (req_prompt r)]"
    and "requestQueue (processQueue s) = rs"
  using assms by (simp_all add: processQueue_def Let_def finishRequest_def settled_def)


text \<open>
  Claim C9, as the code has it. In whatever state a service is, when \<open>processQueue\<close>
  takes a request from the queue and calls no API, it settles that request at once:
  \<open>FalImageService\<close> resolves it with \<open>/placeholder.svg?height=450&width=800&query=\<close>
  followed by the encoding of the first 100 code units of the prompt,
  \<open>ImageGenerationService\<close> with the same head followed by the encoding of the whole
  prompt, provided \<open>encodeURIComponent\<close> does not throw. And along every sequence of
  events of a service, with or without an API key, the \<open>i\<close>-th promise settled is the
  one of the \<open>i\<close>-th call and is resolved with the URL of the \<open>i\<close>-th prompt, so that two
  calls with the same prompt are resolved with the same URL.
\<close>

theorem placeholder_url_of_request:
  "(\<not> isProcessing s \<and> requestQueue s = r # rs \<and> \<not> callsApi s
      \<longrightarrow> requestQueue (processQueue s) = rs
        \<and> (adapter s = FalImageService \<and> encodeURIComponent (take 100 (req_prompt r)) = Inr q
             \<longrightarrow> outcomes (processQueue s)
                   = outcomes s @ [Resolved (req_promise r)
                        (js ''/placeholder.svg?height=450&width=800&query='' @ q)])
        \<and> (adapter s = ImageGenerationService \<and> encodeURIComponent (req_prompt r) = Inr q
             \<longrightarrow> outcomes (processQueue s)
                   = outcomes s @ [Resolved (req_promise r)
                        (js ''/placeholder.svg?height=450&width=800&query='' @ q)]))
   \<and> (run evs (newService a k) = Some s' \<and> i < length (outcomes s')
      \<longrightarrow> i < length (prompts evs)
        \<and> (a = FalImageService \<and> encodeURIComponent (take 100 (prompts evs ! i)) = Inr q'
             \<longrightarrow> outcomes s' ! i
                   = Resolved i (js ''/placeholder.svg?height=450&width=800&query='' @ q'))
        \<and> (a = ImageGenerationService \<and> encodeURIComponent (prompts evs ! i) = Inr q'
             \<longrightarrow> outcomes s' ! i
                   = Resolved i (js ''/placeholder.svg?height=450&width=800&query='' @ q'))
        \<and> (\<forall>j<length (outcomes s'). prompts evs ! j = prompts evs ! i
             \<longrightarrow> (\<forall>url. outcomes s' ! j = Resolved j url \<longleftrightarrow> outcomes s' ! i = Resolved i url)))"
proof (intro conjI impI allI)
  assume h: "\<not> isProcessing s \<and> requestQueue s = r # rs \<and> \<not> callsApi s"
  then have h': "\<not> isProcessing s" "requestQueue s = r # rs" "\<not> callsApi s" by simp_all
  show "requestQueue (processQueue s) = rs" by (rule processQueue_head(2) [OF h'])
  {
    assume "adapter s = FalImageService \<and> encodeURIComponent (take 100 (req_prompt r)) = Inr q"
    then show "outcomes (processQueue s)
                 = outcomes s @ [Resolved (req_promise r)
                      (js ''/placeholder.svg?height=450&width=800&query='' @ q)]"
      using settled_url [of "req_prompt r" q "req_promise r"]
      unfolding processQueue_head(1) [OF h'] by simp
  }
  {
    assume "adapter s = ImageGenerationService \<and> encodeURIComponent (req_prompt r) = Inr q"
    then show "outcomes (processQueue s)
                 = outcomes s @ [Resolved (req_promise r)
                      (js ''/placeholder.svg?height=450&width=800&query='' @ q)]"
      using settled_url [of "req_prompt r" q "req_promise r"]
      unfolding processQueue_head(1) [OF h'] by simp
  }
next
  assume h: "run evs (newService a k) = Some s' \<and> i < length (outcomes s')"
  then have r: "run evs (newService a k) = Some s'" and i: "i < length (outcomes s')" by simp_all
  note si = run_settled [OF r i]
  show "i < length (prompts evs)" using si by simp
  {
    assume "a = FalImageService \<and> encodeURIComponent (take 100 (prompts evs ! i)) = Inr q'"
    then show "outcomes s' ! i
                 = Resolved i (js ''/placeholder.svg?height=450&width=800&query='' @ q')"
      using si settled_url [of "prompts evs ! i" q' i] by simp
  }
  {
    assume "a = ImageGenerationService \<and> encodeURIComponent (prompts evs ! i) = Inr q'"
    then show "outcomes s' ! i
                 = Resolved i (js ''/placeholder.svg?height=450&width=800&query='' @ q')"
      using si settled_url [of "prompts evs ! i" q' i] by simp
  }
  {
    fix j url
    assume j: "j < length (outcomes s')" and e: "prompts evs ! j = prompts evs ! i"
    note sj = run_settled [OF r j]
    show "outcomes s' ! j = Resolved j url \<longleftrightarrow> outcomes s' ! i = Resolved i url"
      using si sj e by (simp add: settled_def split: sum.splits)
  }
qed

lemma three_calls:
  "run [GenerateImage emojiPrompt, GenerateImage longPrompt, GenerateImage longPrompt]
     (newService FalImageService False)
     = Some ((newService FalImageService False)
          \<lparr> outcomes := [Abandoned 0 URIError,
               Resolved 1 (js ''/placeholder.svg?height=450&width=800&query='' @ replicate 100 0x61),
               Resolved 2 (js ''/placeholder.svg?height=450&width=800&query='' @ replicate 100 0x61)],
            timers := 3, calls := 3 \<rparr>)"
proof -
  have g: "generatePlaceholderImage FalImageService emojiPrompt = Inl URIError"
    "generatePlaceholderImage FalImageService longPrompt
       = Inr (js ''/placeholder.svg?height=450&width=800&query='' @ replicate 100 0x61)"
    by (simp_all add: generatePlaceholderImage_def encode_emojiPrompt encode_longPrompt
        placeholderUrl_literal)
  show ?thesis
    by (simp add: step_def processQueue_def finishRequest_def newService_def callsApi_def Let_def g)
qed

theorem placeholder_url_of_request_witness:
  "\<not> isProcessing queuedService
   \<and> requestQueue queuedService = [\<lparr> req_promise = 1, req_prompt = longPrompt \<rparr>]
   \<and> \<not> callsApi queuedService
   \<and> adapter queuedService = ImageGenerationService
   \<and> encodeURIComponent longPrompt = Inr longPrompt
   \<and> requestQueue (processQueue queuedService) = []
   \<and> outcomes (processQueue queuedService)
       = [Abandoned 0 URIError,
          Resolved 1 (js ''/placeholder.svg?height=450&width=800&query='' @ longPrompt)]
   \<and> (\<exists>s'. run [GenerateImage emojiPrompt, GenerateImage longPrompt, GenerateImage longPrompt]
              (newService FalImageService False) = Some s'
         \<and> length (outcomes s') = 3
         \<and> prompts [GenerateImage emojiPrompt, GenerateImage longPrompt, GenerateImage longPrompt] ! 1
             = longPrompt
         \<and> prompts [GenerateImage emojiPrompt, GenerateImage longPrompt, GenerateImage longPrompt] ! 2
             = longPrompt
         \<and> encodeURIComponent (take 100 longPrompt) = Inr (replicate 100 0x61)
         \<and> outcomes s' ! 1
             = Resolved 1 (js ''/placeholder.svg?height=450&width=800&query='' @ replicate 100 0x61)
         \<and> outcomes s' ! 2
             = Resolved 2 (js ''/placeholder.svg?height=450&width=800&query='' @ replicate 100 0x61))"
proof -
  let ?evs = "[GenerateImage emojiPrompt, GenerateImage longPrompt, GenerateImage longPrompt]"
  let ?s' = "(newService FalImageService False)
          \<lparr> outcomes := [Abandoned 0 URIError,
               Resolved 1 (js ''/placeholder.svg?height=450&width=800&query='' @ replicate 100 0x61),
               Resolved 2 (js ''/placeholder.svg?height=450&width=800&query='' @ replicate 100 0x61)],
            timers := 3, calls := 3 \<rparr>"
  have q: "\<not> isProcessing queuedService"
    "requestQueue queuedService = [\<lparr> req_promise = 1, req_prompt = longPrompt \<rparr>]"
    "\<not> callsApi queuedService" "adapter queuedService = ImageGenerationService"
    "outcomes queuedService = [Abandoned 0 URIError]"
    by (simp_all add: queuedService_def newService_def callsApi_def)
  have l: "length (outcomes ?s') = 3" by simp
  have p: "prompts ?evs ! 1 = longPrompt" "prompts ?evs ! 2 = longPrompt" by simp_all
  note t1 = placeholder_url_of_request
    [where s = queuedService and r = "\<lparr> req_promise = 1, req_prompt = longPrompt \<rparr>" and rs = "[]"
       and q = longPrompt and evs = ?evs and a = FalImageService and k = False and s' = ?s'
       and i = 1 and q' = "replicate 100 0x61"]
  note t2 = placeholder_url_of_request
    [where s = queuedService and r = "\<lparr> req_promise = 1, req_prompt = longPrompt \<rparr>" and rs = "[]"
       and q = longPrompt and evs = ?evs and a = FalImageService and k = False and s' = ?s'
       and i = 2 and q' = "replicate 100 0x61"]
  have a: "requestQueue (processQueue queuedService) = []"
    "outcomes (processQueue queuedService)
       = [Abandoned 0 URIError,
          Resolved 1 (js ''/placeholder.svg?height=450&width=800&query='' @ longPrompt)]"
    using t1 q encode_longPrompt(1) by simp_all
  have b: "outcomes ?s' ! 1
             = Resolved 1 (js ''/placeholder.svg?height=450&width=800&query='' @ replicate 100 0x61)"
    using t1 three_calls l p encode_longPrompt(2) by simp
  have c: "outcomes ?s' ! 2
             = Resolved 2 (js ''/placeholder.svg?height=450&width=800&query='' @ replicate 100 0x61)"
    using t2 three_calls l p encode_longPrompt(2) by simp
  show ?thesis
    by (intro conjI q(1,2,3,4) encode_longPrompt a exI [of _ ?s'] three_calls l p b c)
qed

text \<open>
  Claim C9 as stated has every adapter encode the first 100 characters of the prompt.
  \<open>ImageGenerationService\<close> encodes the whole prompt: for a prompt of 101 letters the
  URL ends in 101 letters, not in 100.
\<close>

theorem placeholder_url_truncation_counterexample:
  "length longPrompt = 101
   \<and> map_option outcomes (run [GenerateImage longPrompt] (newService ImageGenerationService False))
       = Some [Resolved 0 (js ''/placeholder.svg?height=450&width=800&query='' @ replicate 101 0x61)]
   \<and> encodeURIComponent (take 100 longPrompt) = Inr (replicate 100 0x61)
   \<and> map_option outcomes (run [GenerateImage longPrompt] (newService ImageGenerationService False))
       \<noteq> Some [Resolved 0 (js ''/placeholder.svg?height=450&width=800&query='' @ replicate 100 0x61)]"
proof -
  have c: "\<not> callsApi (newService ImageGenerationService False)"
    by (simp add: callsApi_def newService_def)
  have o: "map_option outcomes (run [GenerateImage longPrompt] (newService ImageGenerationService False))
       = Some [Resolved 0 (js ''/placeholder.svg?height=450&width=800&query='' @ replicate 101 0x61)]"
    unfolding generateImage_alone [OF c]
    by (simp add: generatePlaceholderImage_def placeholderUrl_literal encode_longPrompt(1))
       (simp add: longPrompt_def)
  have "length (replicate 101 (0x61 :: 16 word)) \<noteq> length (replicate 100 (0x61 :: 16 word))"
    by simp
  then have d: "replicate 101 (0x61 :: 16 word) \<noteq> replicate 100 0x61"
    by (rule contrapos_nn) (simp only:)
  have l: "length longPrompt = 101" by (simp add: longPrompt_def)
  have n: "map_option outcomes (run [GenerateImage longPrompt] (newService ImageGenerationService False))
       \<noteq> Some [Resolved 0 (js ''/placeholder.svg?height=450&width=800&query='' @ replicate 100 0x61)]"
    unfolding o using d by simp
  show ?thesis by (intro conjI l o encode_longPrompt(2) n)
qed

subsection \<open>A request that is never resolved\<close>

text \<open>
  Claim C5 on a prompt of 99 letters and one emoji, given to \<open>FalImageService\<close>. The
  first 100 code units end with half of the emoji, \<open>encodeURIComponent\<close> throws, and
  \<open>processQueue\<close> catches the exception without settling the promise: when the timer
  has fired the service is idle, its queue is empty and the first promise is not
  resolved. A second request is resolved after it, and so are both by
  \<open>ImageGenerationService\<close>, which does not cut the prompt.
\<close>

theorem fal_service_abandons_request:
  "map_option outcomes (run [GenerateImage emojiPrompt, TimerFires] (newService FalImageService False))
     = Some [Abandoned 0 URIError]
   \<and> map_option requestQueue
        (run [GenerateImage emojiPrompt, TimerFires] (newService FalImageService False)) = Some []
   \<and> map_option awaiting
        (run [GenerateImage emojiPrompt, TimerFires] (newService FalImageService False)) = Some []
   \<and> map_option timers
        (run [GenerateImage emojiPrompt, TimerFires] (newService FalImageService False)) = Some 0
   \<and> map_option isProcessing
        (run [GenerateImage emojiPrompt, TimerFires] (newService FalImageService False)) = Some False
   \<and> map_option outcomes
        (run [GenerateImage emojiPrompt, GenerateImage longPrompt] (newService FalImageService False))
       = Some [Abandoned 0 URIError,
               Resolved 1 (js ''/placeholder.svg?height=450&width=800&query='' @ replicate 100 0x61)]
   \<and> map_option outcomes
        (run [GenerateImage emojiPrompt, GenerateImage longPrompt]
           (newService ImageGenerationService False))
       = Some [Resolved 0 (js ''/placeholder.svg?height=450&width=800&query=''
                            @ replicate 99 0x61 @ js ''%F0%9F%98%80''),
               Resolved 1 (js ''/placeholder.svg?height=450&width=800&query='' @ longPrompt)]"
proof -
  have c: "\<not> callsApi (newService FalImageService False)"
    "\<not> callsApi (newService ImageGenerationService False)"
    by (simp_all add: callsApi_def newService_def)
  have g: "generatePlaceholderImage FalImageService emojiPrompt = Inl URIError"
    "generatePlaceholderImage FalImageService longPrompt
       = Inr (js ''/placeholder.svg?height=450&width=800&query='' @ replicate 100 0x61)"
    "generatePlaceholderImage ImageGenerationService emojiPrompt
       = Inr (js ''/placeholder.svg?height=450&width=800&query=''
               @ replicate 99 0x61 @ js ''%F0%9F%98%80'')"
    "generatePlaceholderImage ImageGenerationService longPrompt
       = Inr (js ''/placeholder.svg?height=450&width=800&query='' @ longPrompt)"
    by (simp_all add: generatePlaceholderImage_def encode_emojiPrompt encode_longPrompt
        placeholderUrl_literal)
  have r1: "run [GenerateImage emojiPrompt, TimerFires] (newService FalImageService False)
              = Some ((newService FalImageService False)
                   \<lparr> outcomes := [Abandoned 0 URIError], timers := 0, calls := 1 \<rparr>)"
    using run_append [of "[GenerateImage emojiPrompt]" "[TimerFires]" "newService FalImageService False"]
    unfolding generateImage_alone [OF c(1)] g
    by (simp add: step_def processQueue_def newService_def)
  have r2: "run [GenerateImage emojiPrompt, GenerateImage longPrompt] (newService FalImageService False)
              = Some ((newService FalImageService False)
                   \<lparr> outcomes := [Abandoned 0 URIError,
                        Resolved 1 (js ''/placeholder.svg?height=450&width=800&query=''
                                     @ replicate 100 0x61)],
                     timers := 2, calls := 2 \<rparr>)"
    unfolding generateImage_twice [OF c(1)] g by simp
  have r3: "run [GenerateImage emojiPrompt, GenerateImage longPrompt]
              (newService ImageGenerationService False)
              = Some ((newService ImageGenerationService False)
                   \<lparr> outcomes := [Resolved 0 (js ''/placeholder.svg?height=450&width=800&query=''
                                     @ replicate 99 0x61 @ js ''%F0%9F%98%80''),
                        Resolved 1 (js ''/placeholder.svg?height=450&width=800&query='' @ longPrompt)],
                     timers := 2, calls := 2 \<rparr>)"
    unfolding generateImage_twice [OF c(2)] g by simp
  show ?thesis
    unfolding r1 r2 r3 by (simp add: newService_def)
qed

end
